theory Spec2Isabelle
  imports Complex_Main "HOL-Library.AList" "HOL-Library.Log_Nat"
begin

section \<open>The Markov model of \<^verbatim>\<open>markov_model.py\<close>\<close>

text \<open>
  A shallow embedding of the class \<^verbatim>\<open>MarkovModel\<close>. Python strings are
  \<^typ>\<open>string\<close>, a one-character string used as a symbol is a \<^typ>\<open>char\<close>, Python
  integers are \<^typ>\<open>int\<close> (counts) or \<^typ>\<open>nat\<close> (lengths, the order \<open>k\<close>, loop
  indices). A \<^verbatim>\<open>dict\<close> is an association list in insertion order, read with
  \<^const>\<open>map_of\<close> and written with \<^const>\<open>AList.update\<close>, which overwrites an
  existing key in place and appends a new one, as a Python dictionary does. Every
  exception the code can raise is a value of \<open>error\<close>.
\<close>

subsection \<open>Errors and Python primitives\<close>

datatype error =
    ValueError_length     \<comment> \<open>\<^verbatim>\<open>ValueError('kgram ... not of length k')\<close>\<close>
  | ValueError_unknown    \<comment> \<open>\<^verbatim>\<open>ValueError('Unknown kgram ...')\<close>\<close>
  | ValueError            \<comment> \<open>raised by the built-ins \<^verbatim>\<open>max\<close> and \<^verbatim>\<open>list.index\<close>\<close>
  | KeyError
  | IndexError
  | ZeroDivisionError

text \<open>\<^verbatim>\<open>s[i]\<close> for an index \<open>i \<ge> 0\<close>.\<close>

definition py_index :: "'a list \<Rightarrow> nat \<Rightarrow> error + 'a" where
  "py_index s i = (if i < length s then Inr (s ! i) else Inl IndexError)"

text \<open>\<^verbatim>\<open>s[lo:hi]\<close>: a negative bound counts from the end, and both are clamped.\<close>

definition py_slice :: "'a list \<Rightarrow> int \<Rightarrow> int \<Rightarrow> 'a list" where
  "py_slice s lo hi =
     (let n = int (length s);
          lo' = (if lo < 0 then max 0 (lo + n) else min lo n);
          hi' = (if hi < 0 then max 0 (hi + n) else min hi n)
      in take (nat (hi' - lo')) (drop (nat lo') s))"

text \<open>\<^verbatim>\<open>s.replace(old, new, 1)\<close> for one-character strings \<open>old\<close> and \<open>new\<close>.\<close>

fun replace_first :: "char \<Rightarrow> char \<Rightarrow> string \<Rightarrow> string" where
  "replace_first old new [] = []"
| "replace_first old new (x # xs) =
     (if x = old then new # xs else x # replace_first old new xs)"

subsection \<open>The model and its construction\<close>

type_synonym inner = "(char \<times> int) list"
type_synonym table = "(string \<times> inner) list"

record model =
  k_of :: nat      \<comment> \<open>\<^verbatim>\<open>self._k\<close>\<close>
  st_of :: table   \<comment> \<open>\<^verbatim>\<open>self._st\<close>\<close>

text \<open>The body of the loop of \<^verbatim>\<open>__init__\<close> at index \<open>count\<close>.\<close>

definition init_step :: "string \<Rightarrow> nat \<Rightarrow> nat \<Rightarrow> table \<Rightarrow> error + table" where
  "init_step newtxt k count st =
     (let hold = take k (drop count newtxt) in
      case map_of st hold of
        Some d \<Rightarrow>
          (case py_index newtxt (k + count) of
             Inl e \<Rightarrow> Inl e
           | Inr c \<Rightarrow>
               (case map_of d c of
                  Some n \<Rightarrow> Inr (AList.update hold (AList.update c (n + 1) d) st)
                | None \<Rightarrow> Inr (AList.update hold (AList.update c 1 d) st)))
      | None \<Rightarrow>
          (case py_index newtxt (k + count) of
             Inl e \<Rightarrow> Inl e
           | Inr c \<Rightarrow> Inr (AList.update hold (AList.update c 1 []) st)))"

fun init_loop :: "string \<Rightarrow> nat \<Rightarrow> nat list \<Rightarrow> table \<Rightarrow> error + table" where
  "init_loop newtxt k [] st = Inr st"
| "init_loop newtxt k (count # rest) st =
     (case init_step newtxt k count st of
        Inl e \<Rightarrow> Inl e
      | Inr st' \<Rightarrow> init_loop newtxt k rest st')"

text \<open>\<^verbatim>\<open>MarkovModel(text, k)\<close>.\<close>

definition init :: "string \<Rightarrow> nat \<Rightarrow> error + model" where
  "init text k =
     (let newtxt = text @ take k text;
          size = length newtxt
      in case init_loop newtxt k [0..<size - k] [] of
           Inl e \<Rightarrow> Inl e
         | Inr st \<Rightarrow> Inr \<lparr>k_of = k, st_of = st\<rparr>)"

subsection \<open>Accessors\<close>

definition order :: "model \<Rightarrow> nat" where
  "order m = k_of m"

definition kgram_freq :: "model \<Rightarrow> string \<Rightarrow> error + int" where
  "kgram_freq m kgram =
     (if k_of m \<noteq> length kgram then Inl ValueError_length
      else case map_of (st_of m) kgram of
             Some d \<Rightarrow> Inr (sum_list (map snd d))
           | None \<Rightarrow> Inr 0)"

definition char_freq :: "model \<Rightarrow> string \<Rightarrow> char \<Rightarrow> error + int" where
  "char_freq m kgram c =
     (if k_of m \<noteq> length kgram then Inl ValueError_length
      else case map_of (st_of m) kgram of
             None \<Rightarrow> Inr 0
           | Some d \<Rightarrow> (case map_of d c of None \<Rightarrow> Inr 0 | Some n \<Rightarrow> Inr n))"

subsection \<open>Sampling and generation\<close>

text \<open>
  The two random sources are outside the repository and are taken as parameters of a
  call: \<open>dr\<close> is the index that \<^verbatim>\<open>stdrandom.discrete(char_num)\<close> returned, and
  \<open>cr\<close> is the raw draw behind \<^verbatim>\<open>random.choice\<close>, which returns
  \<^verbatim>\<open>seq[randbelow(len(seq))]\<close> with every index equally likely; the index is
  \<open>cr mod length seq\<close>. The quotients \<^verbatim>\<open>char_freq / total\<close> are floats in the
  source and exact rationals here; the value \<^verbatim>\<open>rand\<close> returns does not depend on
  them.
\<close>

definition random_choice :: "'a list \<Rightarrow> nat \<Rightarrow> error + 'a" where
  "random_choice seq cr =
     (if seq = [] then Inl IndexError else Inr (seq ! (cr mod length seq)))"

text \<open>The loop \<^verbatim>\<open>char_num[i] = self.char_freq(kgram, hold[i]) / total\<close>; \<open>tot\<close> is \<^verbatim>\<open>total\<close>.\<close>

fun char_num_loop :: "model \<Rightarrow> string \<Rightarrow> int \<Rightarrow> char list \<Rightarrow> error + rat list" where
  "char_num_loop m kgram tot [] = Inr []"
| "char_num_loop m kgram tot (h # hs) =
     (case char_freq m kgram h of
        Inl e \<Rightarrow> Inl e
      | Inr f \<Rightarrow>
          if tot = 0 then Inl ZeroDivisionError
          else (case char_num_loop m kgram tot hs of
                  Inl e \<Rightarrow> Inl e
                | Inr ps \<Rightarrow> Inr (of_int f / of_int tot # ps)))"

definition rand :: "model \<Rightarrow> string \<Rightarrow> nat \<times> nat \<Rightarrow> error + char" where
  "rand m kgram draws =
     (if k_of m \<noteq> length kgram then Inl ValueError_length
      else case map_of (st_of m) kgram of
        None \<Rightarrow> Inl ValueError_unknown
      | Some d \<Rightarrow>
          (let c = length d;
               hold = map fst d
           in case kgram_freq m kgram of
                Inl e \<Rightarrow> Inl e
              | Inr tot \<Rightarrow>
                  (case (if 1 < c then char_num_loop m kgram tot hold
                         else case py_index hold 0 of
                                Inl e \<Rightarrow> Inl e
                              | Inr h \<Rightarrow> char_num_loop m kgram tot [h]) of
                     Inl e \<Rightarrow> Inl e
                   | Inr char_num \<Rightarrow>
                       (let choice = Max (set char_num);
                            char = fst draws;
                            hold2 = map (\<lambda>p. if choice = p then char else 0) char_num
                        in random_choice hold (snd draws)))))"

text \<open>
  \<^verbatim>\<open>gen(kgram, T)\<close>; \<open>rs i\<close> holds the draws of the call to \<^verbatim>\<open>rand\<close> in
  iteration \<open>i\<close>.
\<close>

fun gen_loop :: "model \<Rightarrow> (nat \<Rightarrow> nat \<times> nat) \<Rightarrow> nat list \<Rightarrow> string \<Rightarrow> error + string" where
  "gen_loop m rs [] newtxt = Inr newtxt"
| "gen_loop m rs (i # rest) newtxt =
     (case rand m (take (k_of m) (drop i newtxt)) (rs i) of
        Inl e \<Rightarrow> Inl e
      | Inr c \<Rightarrow> gen_loop m rs rest (newtxt @ [c]))"

definition gen :: "model \<Rightarrow> string \<Rightarrow> nat \<Rightarrow> (nat \<Rightarrow> nat \<times> nat) \<Rightarrow> error + string" where
  "gen m kgram T rs = gen_loop m rs [0..<T - k_of m] kgram"

subsection \<open>Floating point\<close>

text \<open>
  The repair multiplies quotients of counts in Python floats, that is in IEEE 754
  binary64 with rounding to nearest, ties to even. A finite double is modelled by the
  rational number it denotes. \<open>round_double x\<close> is the double nearest to \<open>x\<close>: \<open>x\<close> is
  rounded to 53 significant bits, or to a multiple of \<^verbatim>\<open>2**-1074\<close> in the subnormal
  range. \<open>fdiv a b\<close> is \<^verbatim>\<open>a / b\<close> for two integers with \<open>b \<noteq> 0\<close>, which Python rounds
  correctly, and \<open>fmul x y\<close> is \<^verbatim>\<open>x * y\<close> for two doubles. Overflow to infinity is not
  modelled: on a table of counts every quotient and every product lies between 0 and 1
  (lemma \<open>likelihood_loop_unit\<close> below).
\<close>

definition pow2 :: "int \<Rightarrow> rat" where
  "pow2 e = (if 0 \<le> e then 2 ^ nat e else 1 / 2 ^ nat (- e))"

text \<open>\<open>\<lfloor>log\<^sub>2 x\<rfloor>\<close> for \<open>x > 0\<close>, from the bit lengths of numerator and denominator.\<close>

definition ilog2 :: "rat \<Rightarrow> int" where
  "ilog2 x =
     (let e = bitlen (fst (quotient_of x)) - bitlen (snd (quotient_of x))
      in if pow2 e \<le> x then e else e - 1)"

definition round_half_even :: "rat \<Rightarrow> int" where
  "round_half_even y =
     (let f = \<lfloor>y\<rfloor>; r = y - of_int f
      in if r < 1 / 2 then f else if 1 / 2 < r then f + 1
         else if even f then f else f + 1)"

definition round_double :: "rat \<Rightarrow> rat" where
  "round_double x =
     (if x = 0 then 0
      else let a = \<bar>x\<bar>; q = max (ilog2 a - 52) (- 1074)
           in sgn x * of_int (round_half_even (a / pow2 q)) * pow2 q)"

definition fdiv :: "int \<Rightarrow> int \<Rightarrow> rat" where
  "fdiv a b = round_double (of_int a / of_int b)"

definition fmul :: "rat \<Rightarrow> rat \<Rightarrow> rat" where
  "fmul x y = round_double (x * y)"

subsection \<open>Repair\<close>

text \<open>\<^verbatim>\<open>a.index(max(a))\<close>.\<close>

fun index_of :: "'a \<Rightarrow> 'a list \<Rightarrow> nat" where
  "index_of x [] = 0"
| "index_of x (y # ys) = (if y = x then 0 else Suc (index_of x ys))"

definition argmax :: "rat list \<Rightarrow> error + nat" where
  "argmax a =
     (if a = [] then Inl ValueError
      else let mx = Max (set a)
           in if mx \<in> set a then Inr (index_of mx a) else Inl ValueError)"

text \<open>
  \<^verbatim>\<open>self.char_freq(g, s)\<close> where \<open>s\<close> is a slice of at most one character; the
  empty string is never a key of an inner dictionary.
\<close>

definition char_freq_slice :: "model \<Rightarrow> string \<Rightarrow> string \<Rightarrow> error + int" where
  "char_freq_slice m kgram s =
     (case s of
        [c] \<Rightarrow> char_freq m kgram c
      | _ \<Rightarrow> if k_of m \<noteq> length kgram then Inl ValueError_length else Inr 0)"

text \<open>
  The loop over \<open>b\<close> computing \<open>p\<close> for one candidate text \<open>ntxt\<close>. \<open>p\<close> starts as the
  integer 1, which the first \<^verbatim>\<open>p *= cal1 / cal2\<close> converts to the double 1.0; the
  \<^verbatim>\<open>p = 0\<close> of the \<^verbatim>\<open>else\<close> branch is the integer 0, which compares equal to 0.0.
\<close>

fun likelihood_loop :: "model \<Rightarrow> string \<Rightarrow> nat list \<Rightarrow> rat \<Rightarrow> error + rat" where
  "likelihood_loop m ntxt [] p = Inr p"
| "likelihood_loop m ntxt (b # bs) p =
     (let k = int (k_of m);
          sub = py_slice ntxt (int b) (int b - k - 1)
      in if map_of (st_of m) sub \<noteq> None then
           (case char_freq_slice m sub (py_slice ntxt (k + int b) (k + int b + 1)) of
              Inl e \<Rightarrow> Inl e
            | Inr cal1 \<Rightarrow>
                (case kgram_freq m sub of
                   Inl e \<Rightarrow> Inl e
                 | Inr cal2 \<Rightarrow>
                     if cal2 = 0 then Inl ZeroDivisionError
                     else likelihood_loop m ntxt bs (fmul p (fdiv cal1 cal2))))
         else Inr 0)"

text \<open>The loop over the candidates \<^verbatim>\<open>keyhold\<close>, building \<^verbatim>\<open>prob\<close>.\<close>

fun prob_loop :: "model \<Rightarrow> string \<Rightarrow> char list \<Rightarrow> error + rat list" where
  "prob_loop m context [] = Inr []"
| "prob_loop m context (c # cs) =
     (case likelihood_loop m (replace_first CHR ''~'' c context) [0..<k_of m + 1] 1 of
        Inl e \<Rightarrow> Inl e
      | Inr p \<Rightarrow>
          (case prob_loop m context cs of
             Inl e \<Rightarrow> Inl e
           | Inr ps \<Rightarrow> Inr (p # ps)))"

text \<open>The body of the \<^verbatim>\<open>if corrupted[i] == '~'\<close> branch.\<close>

definition replace_at :: "model \<Rightarrow> string \<Rightarrow> nat \<Rightarrow> error + string" where
  "replace_at m corrupted i =
     (let k = int (k_of m);
          kgram_b = py_slice corrupted (int i - k) (int i);
          kgram_a = py_slice corrupted (int i + 1) (int i + k + 1);
          context = kgram_b @ ''~'' @ kgram_a
      in case map_of (st_of m) kgram_b of
           None \<Rightarrow> Inl KeyError
         | Some d \<Rightarrow>
             (let keyhold = map fst d
              in case prob_loop m context keyhold of
                   Inl e \<Rightarrow> Inl e
                 | Inr prob \<Rightarrow>
                     (case argmax prob of
                        Inl e \<Rightarrow> Inl e
                      | Inr j \<Rightarrow>
                          (case py_index keyhold j of
                             Inl e \<Rightarrow> Inl e
                           | Inr c \<Rightarrow> Inr (replace_first CHR ''~'' c corrupted)))))"

fun replace_loop :: "model \<Rightarrow> nat list \<Rightarrow> string \<Rightarrow> error + string" where
  "replace_loop m [] corrupted = Inr corrupted"
| "replace_loop m (i # rest) corrupted =
     (case py_index corrupted i of
        Inl e \<Rightarrow> Inl e
      | Inr x \<Rightarrow>
          if x = CHR ''~'' then
            (case replace_at m corrupted i of
               Inl e \<Rightarrow> Inl e
             | Inr corrupted' \<Rightarrow> replace_loop m rest corrupted')
          else replace_loop m rest corrupted)"

definition replace_unknown :: "model \<Rightarrow> string \<Rightarrow> error + string" where
  "replace_unknown m corrupted = replace_loop m [0..<length corrupted] corrupted"

section \<open>Notions used to state the properties\<close>

text \<open>The sum of the counts of an inner dictionary, and of a whole table.\<close>

definition inner_sum :: "inner \<Rightarrow> int" where
  "inner_sum d = sum_list (map snd d)"

definition table_sum :: "table \<Rightarrow> int" where
  "table_sum st = sum_list (map (\<lambda>p. inner_sum (snd p)) st)"

text \<open>The successor symbols recorded for a k-gram.\<close>

definition succs :: "table \<Rightarrow> string \<Rightarrow> char set" where
  "succs st g = (case map_of st g of None \<Rightarrow> {} | Some d \<Rightarrow> fst ` set d)"

text \<open>
  Well-formed tables: keys are unique (they are dictionary keys), every outer key has
  length \<open>k\<close>, no inner dictionary is empty and every count is positive.
\<close>

definition wf_inner :: "inner \<Rightarrow> bool" where
  "wf_inner d \<longleftrightarrow>
     d \<noteq> [] \<and> distinct (map fst d) \<and> (\<forall>c n. map_of d c = Some n \<longrightarrow> 0 < n)"

definition wf_table :: "nat \<Rightarrow> table \<Rightarrow> bool" where
  "wf_table k st \<longleftrightarrow>
     distinct (map fst st) \<and>
     (\<forall>g d. map_of st g = Some d \<longrightarrow> length g = k \<and> wf_inner d)"

text \<open>
  What one iteration of the loop of \<^verbatim>\<open>__init__\<close> does to the table when it does not
  raise: the count of \<open>c\<close> under \<open>hold\<close> goes up by one. \<open>counted\<close> is the table after
  the iterations \<open>cs\<close>.
\<close>

definition bump :: "table \<Rightarrow> string \<Rightarrow> char \<Rightarrow> table" where
  "bump st hold c =
     (let d = (case map_of st hold of Some d \<Rightarrow> d | None \<Rightarrow> [])
      in AList.update hold
           (AList.update c (case map_of d c of Some n \<Rightarrow> n + 1 | None \<Rightarrow> 1) d) st)"

definition counted :: "string \<Rightarrow> nat \<Rightarrow> nat list \<Rightarrow> table \<Rightarrow> table" where
  "counted newtxt k cs st =
     foldl (\<lambda>st c. bump st (take k (drop c newtxt)) (newtxt ! (k + c))) st cs"

text \<open>
  The probability that \<^verbatim>\<open>rand(kgram)\<close> returns \<open>ch\<close>: the share of the equally likely
  indices \<^verbatim>\<open>randbelow(len(hold))\<close> for which it does.
\<close>

definition rand_prob :: "model \<Rightarrow> string \<Rightarrow> char \<Rightarrow> rat" where
  "rand_prob m kgram ch =
     (case map_of (st_of m) kgram of
        None \<Rightarrow> 0
      | Some d \<Rightarrow>
          of_nat (length (filter (\<lambda>cr. rand m kgram (0, cr) = Inr ch) [0..<length d]))
            / of_nat (length d))"

text \<open>The tables of the texts \<^verbatim>\<open>"aabaab"\<close> (order 2) and \<^verbatim>\<open>"aaab"\<close> (order 1).\<close>

definition example_model :: model where
  "example_model =
     \<lparr>k_of = 2,
      st_of = [(''aa'', [(CHR ''b'', 2)]), (''ab'', [(CHR ''a'', 2)]),
               (''ba'', [(CHR ''a'', 2)])]\<rparr>"

definition skewed_model :: model where
  "skewed_model =
     \<lparr>k_of = 1,
      st_of = [(''a'', [(CHR ''a'', 2), (CHR ''b'', 1)]), (''b'', [(CHR ''a'', 1)])]\<rparr>"

text \<open>
  The count of \<open>c\<close> after \<open>g\<close> and the total count of \<open>g\<close>, read off the table
  (0 for what is absent).
\<close>

definition tcount :: "table \<Rightarrow> string \<Rightarrow> char \<Rightarrow> int" where
  "tcount st g c =
     (case map_of st g of
        None \<Rightarrow> 0
      | Some d \<Rightarrow> (case map_of d c of None \<Rightarrow> 0 | Some n \<Rightarrow> n))"

definition ttotal :: "table \<Rightarrow> string \<Rightarrow> int" where
  "ttotal st g = (case map_of st g of None \<Rightarrow> 0 | Some d \<Rightarrow> inner_sum d)"

text \<open>
  The joint likelihood in the words of the specification, for a window
  \<^verbatim>\<open>W = kgram_b + c + kgram_a\<close> of length \<open>2k + 1\<close>: the product, over the \<open>k + 1\<close>
  sub-windows of length \<open>k\<close> of \<open>W\<close>, of the count of the symbol that follows the
  sub-window in \<open>W\<close> divided by the total count of the sub-window, and 0 when a
  sub-window is not a key of the table. \<open>joint_likelihood_spec\<close> is that product of
  fractions; \<open>float_likelihood_spec\<close> is the same product with every quotient and every
  partial product, taken from left to right, rounded to a double.
\<close>

definition joint_likelihood_spec :: "model \<Rightarrow> string \<Rightarrow> rat" where
  "joint_likelihood_spec m W =
     (let k = k_of m; st = st_of m
      in if list_ex (\<lambda>b. map_of st (take k (drop b W)) = None) [0..<k + 1] then 0
         else prod_list
                (map (\<lambda>b. of_int (tcount st (take k (drop b W)) (W ! (k + b))) /
                          of_int (ttotal st (take k (drop b W))))
                   [0..<k + 1]))"

definition float_likelihood_spec :: "model \<Rightarrow> string \<Rightarrow> rat" where
  "float_likelihood_spec m W =
     (let k = k_of m; st = st_of m
      in if list_ex (\<lambda>b. map_of st (take k (drop b W)) = None) [0..<k + 1] then 0
         else foldl fmul 1
                (map (\<lambda>b. fdiv (tcount st (take k (drop b W)) (W ! (k + b)))
                               (ttotal st (take k (drop b W))))
                   [0..<k + 1]))"

text \<open>
  The string \<^verbatim>\<open>context\<close> that \<^verbatim>\<open>replace_unknown\<close> builds for the marker at \<open>i\<close>, and
  the value \<open>p\<close> that its inner loops compute for the candidate \<open>c\<close>.
\<close>

definition context_of :: "model \<Rightarrow> string \<Rightarrow> nat \<Rightarrow> string" where
  "context_of m s i =
     (let k = int (k_of m)
      in py_slice s (int i - k) (int i) @ ''~'' @ py_slice s (int i + 1) (int i + k + 1))"

definition candidate_likelihood :: "model \<Rightarrow> string \<Rightarrow> nat \<Rightarrow> char \<Rightarrow> error + rat" where
  "candidate_likelihood m s i c =
     likelihood_loop m (replace_first CHR ''~'' c (context_of m s i)) [0..<k_of m + 1] 1"

text \<open>
  The tables of the texts \<^verbatim>\<open>"aabab"\<close>, \<^verbatim>\<open>"acabacbabac"\<close> and \<^verbatim>\<open>"a~bc"\<close> (order 1).
\<close>

definition alternating_model :: model where
  "alternating_model =
     \<lparr>k_of = 1,
      st_of = [(''a'', [(CHR ''a'', 1), (CHR ''b'', 2)]), (''b'', [(CHR ''a'', 2)])]\<rparr>"

definition tie_model :: model where
  "tie_model =
     \<lparr>k_of = 1,
      st_of = [(''a'', [(CHR ''c'', 3), (CHR ''b'', 2)]),
               (''c'', [(CHR ''a'', 2), (CHR ''b'', 1)]),
               (''b'', [(CHR ''a'', 3)])]\<rparr>"

definition marker_model :: model where
  "marker_model =
     \<lparr>k_of = 1,
      st_of = [(''a'', [(CHR ''~'', 1)]), (''~'', [(CHR ''b'', 1)]),
               (''b'', [(CHR ''c'', 1)]), (''c'', [(CHR ''a'', 1)])]\<rparr>"

section \<open>Properties\<close>

subsection \<open>Construction\<close>

lemma init_step_bump:
  "k + count < length newtxt \<Longrightarrow>
   init_step newtxt k count st =
     Inr (bump st (take k (drop count newtxt)) (newtxt ! (k + count)))"
  by (simp add: init_step_def bump_def py_index_def split: option.splits)

lemma init_loop_counted:
  "\<forall>c\<in>set cs. k + c < length newtxt \<Longrightarrow>
   init_loop newtxt k cs st = Inr (counted newtxt k cs st)"
  by (induction cs arbitrary: st) (simp_all add: counted_def init_step_bump)

lemma init_counted:
  "init text k =
     Inr \<lparr>k_of = k,
          st_of = counted (text @ take k text) k [0..<length (text @ take k text) - k] []\<rparr>"
proof -
  have "\<forall>c\<in>set [0..<length (text @ take k text) - k]. k + c < length (text @ take k text)"
    by auto
  from init_loop_counted [OF this] show ?thesis
    by (simp add: init_def Let_def)
qed

lemma init_example: "init ''aabaab'' 2 = Inr example_model"
  unfolding example_model_def by code_simp

lemma init_skewed: "init ''aaab'' 1 = Inr skewed_model"
  unfolding skewed_model_def by code_simp

lemma rand_example:
  "rand example_model ''aa'' dr = Inr CHR ''b''"
  "rand example_model ''ab'' dr = Inr CHR ''a''"
  "rand example_model ''ba'' dr = Inr CHR ''a''"
  by (simp_all add: rand_def example_model_def kgram_freq_def char_freq_def py_index_def
      random_choice_def)

subsection \<open>Counting invariants of the table\<close>

lemma sum_update_Some:
  fixes f :: "'v \<Rightarrow> int"
  shows "map_of al k = Some v \<Longrightarrow>
   sum_list (map (\<lambda>p. f (snd p)) (AList.update k v' al)) =
     sum_list (map (\<lambda>p. f (snd p)) al) - f v + f v'"
  by (induction al) (auto split: if_splits)

lemma sum_update_None:
  fixes f :: "'v \<Rightarrow> int"
  shows "map_of al k = None \<Longrightarrow>
   sum_list (map (\<lambda>p. f (snd p)) (AList.update k v' al)) =
     sum_list (map (\<lambda>p. f (snd p)) al) + f v'"
  by (induction al) (auto split: if_splits)

lemma inner_sum_bump:
  "inner_sum (AList.update c (case map_of d c of Some n \<Rightarrow> n + 1 | None \<Rightarrow> 1) d) = inner_sum d + 1"
proof (cases "map_of d c")
  case None
  then show ?thesis
    using sum_update_None [of d c "\<lambda>x. x" 1] by (simp add: inner_sum_def)
next
  case (Some n)
  then show ?thesis
    using sum_update_Some [of d c n "\<lambda>x. x" "n + 1"] by (simp add: inner_sum_def)
qed

lemma table_sum_bump: "table_sum (bump st hold c) = table_sum st + 1"
proof (cases "map_of st hold")
  case None
  then show ?thesis
    using sum_update_None [of st hold inner_sum "[(c, 1)]"]
    by (simp add: table_sum_def bump_def inner_sum_def)
next
  case (Some d)
  then show ?thesis
    using sum_update_Some [of st hold d inner_sum] inner_sum_bump [of c d]
    by (simp add: table_sum_def bump_def)
qed

lemma map_of_bump:
  "map_of (bump st hold c) =
     (map_of st)(hold \<mapsto>
        AList.update c
          (case map_of (case map_of st hold of Some d \<Rightarrow> d | None \<Rightarrow> []) c of
             Some n \<Rightarrow> n + 1 | None \<Rightarrow> 1)
          (case map_of st hold of Some d \<Rightarrow> d | None \<Rightarrow> []))"
  by (simp add: bump_def update_conv' Let_def)

lemma keys_bump: "fst ` set (bump st hold c) = insert hold (fst ` set st)"
  by (simp add: bump_def dom_update Let_def)

lemma succs_bump:
  "succs (bump st hold c) g = (if g = hold then insert c (succs st hold) else succs st g)"
  by (auto simp: succs_def map_of_bump dom_update split: option.splits)

lemma wf_inner_update:
  assumes "d = [] \<or> wf_inner d"
  shows "wf_inner (AList.update c (case map_of d c of Some n \<Rightarrow> n + 1 | None \<Rightarrow> 1) d)"
proof (cases "d = []")
  case True
  then show ?thesis by (simp add: wf_inner_def)
next
  case False
  with assms have w: "wf_inner d" by simp
  show ?thesis
    unfolding wf_inner_def
  proof (intro conjI allI impI)
    show "AList.update c (case map_of d c of None \<Rightarrow> 1 | Some n \<Rightarrow> n + 1) d \<noteq> []" by simp
    show "distinct (map fst (AList.update c (case map_of d c of None \<Rightarrow> 1 | Some n \<Rightarrow> n + 1) d))"
      using w by (simp add: wf_inner_def distinct_update)
  next
    fix x n
    assume "map_of (AList.update c (case map_of d c of None \<Rightarrow> 1 | Some n \<Rightarrow> n + 1) d) x = Some n"
    then show "0 < n"
      using w by (fastforce simp: wf_inner_def update_conv' split: if_splits option.splits)
  qed
qed

lemma wf_table_bump:
  assumes "wf_table k st" "length hold = k"
  shows "wf_table k (bump st hold c)"
proof -
  let ?d = "case map_of st hold of Some d \<Rightarrow> d | None \<Rightarrow> []"
  have d: "?d = [] \<or> wf_inner ?d"
    using assms(1) by (auto simp: wf_table_def split: option.splits)
  have "distinct (map fst (bump st hold c))"
    using assms(1) by (simp add: bump_def wf_table_def distinct_update Let_def)
  moreover have "length g = k \<and> wf_inner d'" if "map_of (bump st hold c) g = Some d'" for g d'
    using that assms wf_inner_update [OF d, of c]
    by (auto simp: map_of_bump wf_table_def split: if_splits)
  ultimately show ?thesis by (simp add: wf_table_def)
qed

lemma counted_Cons:
  "counted newtxt k (c # cs) st =
     counted newtxt k cs (bump st (take k (drop c newtxt)) (newtxt ! (k + c)))"
  by (simp add: counted_def)

lemma counted_Nil: "counted newtxt k [] st = st"
  by (simp add: counted_def)

lemma wf_table_counted:
  "wf_table k st \<Longrightarrow> \<forall>c\<in>set cs. k + c \<le> length newtxt \<Longrightarrow>
   wf_table k (counted newtxt k cs st)"
proof (induction cs arbitrary: st)
  case Nil
  then show ?case by (simp add: counted_Nil)
next
  case (Cons c cs)
  from Cons.prems have "k + c \<le> length newtxt" by simp
  then have "length (take k (drop c newtxt)) = k" by simp
  with Cons.prems have "wf_table k (bump st (take k (drop c newtxt)) (newtxt ! (k + c)))"
    by (simp add: wf_table_bump)
  with Cons show ?case by (simp add: counted_Cons)
qed

lemma table_sum_counted:
  "table_sum (counted newtxt k cs st) = table_sum st + int (length cs)"
  by (induction cs arbitrary: st) (simp_all add: counted_Nil counted_Cons table_sum_bump)

lemma keys_counted:
  "fst ` set (counted newtxt k cs st) =
     fst ` set st \<union> (\<lambda>c. take k (drop c newtxt)) ` set cs"
  by (induction cs arbitrary: st) (auto simp: counted_Nil counted_Cons keys_bump)

lemma succs_counted:
  "succs (counted newtxt k cs st) g =
     succs st g \<union> {newtxt ! (k + c) | c. c \<in> set cs \<and> take k (drop c newtxt) = g}"
  by (induction cs arbitrary: st) (auto simp: counted_Nil counted_Cons succs_bump)

lemma wf_table_Nil: "wf_table k []"
  by (simp add: wf_table_def)

lemma wf_table_init:
  assumes "init text k = Inr m"
  shows "k_of m = k" "wf_table k (st_of m)"
proof -
  let ?n = "text @ take k text"
  have m: "m = \<lparr>k_of = k, st_of = counted ?n k [0..<length ?n - k] []\<rparr>"
    using assms init_counted [of "text" k] by simp
  show "k_of m = k" by (simp add: m)
  have "\<forall>c\<in>set [0..<length ?n - k]. k + c \<le> length ?n" by auto
  from wf_table_counted [OF wf_table_Nil this] show "wf_table k (st_of m)"
    by (simp add: m)
qed

lemma wf_table_distinct: "wf_table k st \<Longrightarrow> distinct (map fst st)"
  by (simp add: wf_table_def)

lemma wf_table_entry:
  "wf_table k st \<Longrightarrow> (g, d) \<in> set st \<Longrightarrow> map_of st g = Some d"
  by (simp add: wf_table_def)

lemma wf_inner_entry:
  "wf_inner d \<Longrightarrow> (c, n) \<in> set d \<Longrightarrow> 0 < n"
  by (auto simp: wf_inner_def)

lemma kgram_freq_entry:
  assumes "wf_table (k_of m) (st_of m)" "p \<in> set (st_of m)"
  shows "kgram_freq m (fst p) = Inr (inner_sum (snd p))"
proof -
  from assms have e: "map_of (st_of m) (fst p) = Some (snd p)"
    by (simp add: wf_table_def)
  with assms(1) have "length (fst p) = k_of m"
    unfolding wf_table_def by blast
  with e show ?thesis
    by (simp add: kgram_freq_def inner_sum_def)
qed

subsection \<open>Sampling and generation on a constructed table\<close>

lemma sum_list_pos_int:
  fixes xs :: "int list"
  assumes "xs \<noteq> []" "\<forall>x\<in>set xs. 0 < x"
  shows "0 < sum_list xs"
proof (cases xs)
  case Nil
  with assms show ?thesis by simp
next
  case (Cons x ys)
  have "0 \<le> sum_list ys"
    using assms(2) Cons by (intro sum_list_nonneg) auto
  moreover have "0 < x" using assms(2) Cons by simp
  ultimately show ?thesis using Cons by simp
qed

lemma inner_sum_pos: "wf_inner d \<Longrightarrow> 0 < inner_sum d"
  unfolding inner_sum_def
  by (rule sum_list_pos_int) (auto simp: wf_inner_def)

lemma wf_table_key:
  "wf_table k st \<Longrightarrow> map_of st g = Some d \<Longrightarrow> length g = k \<and> wf_inner d"
  by (simp add: wf_table_def)

lemma char_num_loop_ok:
  "k_of m = length kgram \<Longrightarrow> tot \<noteq> 0 \<Longrightarrow> \<exists>ps. char_num_loop m kgram tot hs = Inr ps"
  by (induction hs) (auto simp: char_freq_def split: option.splits)

lemma rand_ok:
  assumes "wf_table (k_of m) (st_of m)" "map_of (st_of m) g = Some d"
  shows "rand m g draws = Inr (map fst d ! (snd draws mod length d))"
proof -
  from wf_table_key [OF assms] have l: "k_of m = length g" and w: "wf_inner d" by simp_all
  from w have ne: "d \<noteq> []" by (simp add: wf_inner_def)
  from inner_sum_pos [OF w] have t: "inner_sum d \<noteq> 0" by simp
  have kf: "kgram_freq m g = Inr (inner_sum d)"
    using l assms(2) by (simp add: kgram_freq_def inner_sum_def)
  have p0: "py_index (map fst d) 0 = Inr (fst (hd d))"
    using ne by (cases d) (simp_all add: py_index_def)
  obtain ps where a: "char_num_loop m g (inner_sum d) (map fst d) = Inr ps"
    using char_num_loop_ok [OF l t] by blast
  obtain qs where b: "char_num_loop m g (inner_sum d) [fst (hd d)] = Inr qs"
    using char_num_loop_ok [OF l t] by blast
  show ?thesis
    using l assms(2) ne
    by (simp add: rand_def kf p0 a b random_choice_def Let_def del: char_num_loop.simps)
qed

lemma rand_in_succs:
  assumes "wf_table (k_of m) (st_of m)" "map_of (st_of m) g = Some d"
  shows "\<exists>c \<in> fst ` set d. rand m g draws = Inr c"
proof -
  from wf_table_key [OF assms] have "d \<noteq> []" by (simp add: wf_inner_def)
  then have "snd draws mod length d < length (map fst d)" by simp
  then have "map fst d ! (snd draws mod length d) \<in> set (map fst d)"
    by (rule nth_mem)
  then show ?thesis using rand_ok [OF assms] by auto
qed

lemma closed_init:
  assumes "k \<le> length text" "init text k = Inr m"
    "map_of (st_of m) g = Some d" "c \<in> fst ` set d"
  shows "drop 1 (g @ [c]) \<in> fst ` set (st_of m)"
proof -
  define n where "n = text @ take k text"
  let ?st = "counted n k [0..<length text] []"
  have len: "length n = length text + k" using assms(1) by (simp add: n_def)
  have wrap: "take k (drop (length text) n) = take k (drop 0 n)"
    using assms(1) by (simp add: n_def)
  have m: "st_of m = ?st"
    using assms(2) init_counted [of "text" k] len by (auto simp: n_def)
  have "c \<in> succs ?st g"
    using assms(3,4) m by (simp add: succs_def)
  moreover have "succs [] g = {}" by (simp add: succs_def)
  ultimately have "c \<in> {n ! (k + j) | j. j \<in> set [0..<length text] \<and> take k (drop j n) = g}"
    unfolding succs_counted by blast
  then obtain j where j0: "j \<in> set [0..<length text]" and
    j1: "take k (drop j n) = g" "c = n ! (k + j)"
    by blast
  from j0 have j: "j < length text" by simp
  have "k < length (drop j n)" using j len by simp
  then have "take (Suc k) (drop j n) = take k (drop j n) @ [drop j n ! k]"
    by (rule take_Suc_conv_app_nth)
  moreover have "drop j n ! k = n ! (k + j)"
    using j len by (simp add: add.commute)
  ultimately have "g @ [c] = take (Suc k) (drop j n)"
    using j1 by simp
  then have sh: "drop 1 (g @ [c]) = take k (drop (Suc j) n)"
    by (simp add: drop_take)
  have "\<exists>j' < length text. take k (drop (Suc j) n) = take k (drop j' n)"
  proof (cases "Suc j < length text")
    case True
    then show ?thesis by blast
  next
    case False
    with j have "Suc j = length text" by simp
    with wrap have "take k (drop (Suc j) n) = take k (drop 0 n)" by simp
    moreover have "0 < length text" using j by (cases "text") simp_all
    ultimately show ?thesis by blast
  qed
  then have "take k (drop (Suc j) n) \<in> (\<lambda>c. take k (drop c n)) ` set [0..<length text]"
    by auto
  then show ?thesis
    unfolding sh m keys_counted by simp
qed

lemma gen_loop_ok:
  assumes wf: "wf_table (k_of m) (st_of m)"
    and cl: "\<And>g d c. map_of (st_of m) g = Some d \<Longrightarrow> c \<in> fst ` set d \<Longrightarrow>
               drop 1 (g @ [c]) \<in> fst ` set (st_of m)"
  shows "length s = k_of m + i \<Longrightarrow> drop i s \<in> fst ` set (st_of m) \<Longrightarrow>
     \<exists>s'. gen_loop m rs [i..<i + j] s = Inr (s @ s') \<and> length s' = j \<and>
       (\<forall>t<j. take (k_of m) (drop (i + t) (s @ s')) \<in> fst ` set (st_of m) \<and>
              rand m (take (k_of m) (drop (i + t) (s @ s'))) (rs (i + t)) =
                Inr ((s @ s') ! (k_of m + i + t)))"
proof (induction j arbitrary: i s)
  case 0
  then show ?case by simp
next
  case (Suc j)
  let ?k = "k_of m"
  have u: "[i..<i + Suc j] = i # [Suc i..<Suc i + j]"
    by (simp add: upt_conv_Cons)
  have tk: "take ?k (drop i s) = drop i s" using Suc.prems(1) by simp
  from Suc.prems(2) obtain d where d: "map_of (st_of m) (drop i s) = Some d"
    by (metis domD dom_map_of_conv_image_fst)
  from rand_in_succs [OF wf d] obtain c where
    c: "c \<in> fst ` set d" "rand m (drop i s) (rs i) = Inr c" by blast
  let ?s1 = "s @ [c]"
  have l1: "length ?s1 = ?k + Suc i" using Suc.prems(1) by simp
  have "drop (Suc i) ?s1 = drop 1 (drop i s @ [c])"
    using Suc.prems(1) by (simp add: drop_Suc tl_drop)
  then have k1: "drop (Suc i) ?s1 \<in> fst ` set (st_of m)"
    using cl [OF d c(1)] by simp
  from Suc.IH [OF l1 k1] obtain s'' where
    g: "gen_loop m rs [Suc i..<Suc i + j] ?s1 = Inr (?s1 @ s'')" and
    l: "length s'' = j" and
    a: "\<forall>t<j. take ?k (drop (Suc i + t) (?s1 @ s'')) \<in> fst ` set (st_of m) \<and>
              rand m (take ?k (drop (Suc i + t) (?s1 @ s''))) (rs (Suc i + t)) =
                Inr ((?s1 @ s'') ! (?k + Suc i + t))"
    by blast
  have e: "?s1 @ s'' = s @ c # s''" by simp
  have g': "gen_loop m rs [i..<i + Suc j] s = Inr (s @ c # s'')"
    unfolding u using c(2) g by (simp add: tk)
  have z: "take ?k (drop i (s @ c # s'')) = drop i s"
    using Suc.prems(1) by simp
  have n: "(s @ c # s'') ! (?k + i) = c"
    using Suc.prems(1) by (simp add: nth_append)
  have "take ?k (drop (i + t) (s @ c # s'')) \<in> fst ` set (st_of m) \<and>
        rand m (take ?k (drop (i + t) (s @ c # s''))) (rs (i + t)) =
          Inr ((s @ c # s'') ! (?k + i + t))" if "t < Suc j" for t
  proof (cases t)
    case 0
    then show ?thesis using z n c(2) Suc.prems(2) by simp
  next
    case (Suc t')
    with that have "t' < j" by simp
    with a have "take ?k (drop (Suc i + t') (?s1 @ s'')) \<in> fst ` set (st_of m) \<and>
              rand m (take ?k (drop (Suc i + t') (?s1 @ s''))) (rs (Suc i + t')) =
                Inr ((?s1 @ s'') ! (?k + Suc i + t'))" by blast
    then show ?thesis unfolding e Suc by simp
  qed
  with g' l show ?case
    by (intro exI [of _ "c # s''"]) simp
qed

lemma gen_ok:
  assumes "k \<le> length text" "init text k = Inr m" "map_of (st_of m) g \<noteq> None"
  shows "\<exists>s'. gen m g T rs = Inr (g @ s') \<and> length g = k \<and> length s' = T - k \<and>
           (\<forall>t<T - k. take k (drop t (g @ s')) \<in> fst ` set (st_of m) \<and>
                rand m (take k (drop t (g @ s'))) (rs t) = Inr ((g @ s') ! (k + t)))"
proof -
  from wf_table_init [OF assms(2)] have k: "k_of m = k" and
    wf: "wf_table (k_of m) (st_of m)" by simp_all
  from assms(3) obtain d where d: "map_of (st_of m) g = Some d" by blast
  from wf_table_key [OF wf d] k have lg: "length g = k_of m + 0" by simp
  from map_of_SomeD [OF d] have "fst (g, d) \<in> fst ` set (st_of m)"
    by (rule imageI)
  then have key: "drop 0 g \<in> fst ` set (st_of m)" by simp
  have cl: "drop 1 (h @ [c]) \<in> fst ` set (st_of m)"
    if "map_of (st_of m) h = Some e" "c \<in> fst ` set e" for h e c
    using closed_init [OF assms(1,2) that] .
  from gen_loop_ok [OF wf cl lg key, where rs = rs and j = "T - k"] k lg show ?thesis
    by (simp add: gen_def)
qed

lemma gen_example: "gen example_model ''aa'' 6 rs = Inr ''aabaab''"
proof -
  have u: "[0..<6 - k_of example_model] = [0, 1, 2, 3]"
    by (simp add: example_model_def upt_rec)
  have k: "k_of example_model = 2"
    by (simp add: example_model_def)
  show ?thesis
    unfolding gen_def u by (simp add: k rand_example)
qed

subsection \<open>Rounding stays in the unit interval\<close>

lemma round_half_even_bounds:
  assumes "0 \<le> y" "y \<le> of_int N"
  shows "0 \<le> round_half_even y \<and> round_half_even y \<le> N"
proof -
  let ?f = "\<lfloor>y\<rfloor>"
  have f0: "0 \<le> ?f" using assms(1) by simp
  have fN: "?f \<le> N" using assms(2) by (simp add: floor_le_iff)
  show ?thesis
  proof (cases "?f = N")
    case True
    with assms(2) have "y - of_int ?f \<le> 0" by simp
    then have "y - of_int ?f < 1 / 2" by simp
    with True f0 show ?thesis by (simp add: round_half_even_def Let_def)
  next
    case False
    with fN have "?f + 1 \<le> N" by simp
    with f0 fN show ?thesis by (auto simp: round_half_even_def Let_def)
  qed
qed

lemma ilog2_unit:
  assumes "0 < x" "x \<le> 1"
  shows "ilog2 x \<le> 0"
proof -
  obtain a b where q: "quotient_of x = (a, b)" by (cases "quotient_of x")
  from quotient_of_denom_pos [OF q] have b: "0 < b" .
  from quotient_of_div [OF q] have x: "x = of_int a / of_int b" .
  with assms(2) b have "a \<le> b" by (simp add: divide_le_eq)
  then have "nat a \<le> nat b" by simp
  then have "bitlen a \<le> bitlen b" by (simp add: bitlen_def floorlog_mono)
  then show ?thesis by (simp add: ilog2_def q Let_def)
qed

lemma round_double_unit:
  assumes "0 \<le> x" "x \<le> 1"
  shows "0 \<le> round_double x \<and> round_double x \<le> 1"
proof (cases "x = 0")
  case True
  then show ?thesis by (simp add: round_double_def)
next
  case False
  with assms(1) have pos: "0 < x" by simp
  define q where "q = max (ilog2 x - 52) (- 1074)"
  define n where "n = nat (- q)"
  from ilog2_unit [OF pos assms(2)] have "q < 0" by (simp add: q_def)
  then have p: "pow2 q = 1 / 2 ^ n" by (simp add: pow2_def n_def)
  have "x * 2 ^ n \<le> 1 * 2 ^ n" using assms(2) by (intro mult_right_mono) simp_all
  then have "x / pow2 q \<le> of_int (2 ^ n)" by (simp add: p)
  moreover have "0 \<le> x / pow2 q" using assms(1) by (simp add: p)
  ultimately have r: "0 \<le> round_half_even (x / pow2 q)" "round_half_even (x / pow2 q) \<le> 2 ^ n"
    using round_half_even_bounds by blast+
  from r(2) have "(of_int (round_half_even (x / pow2 q)) :: rat) \<le> of_int (2 ^ n)"
    by (simp only: of_int_le_iff)
  then have "of_int (round_half_even (x / pow2 q)) * pow2 q \<le> 1"
    by (simp add: p divide_le_eq)
  moreover have "0 \<le> of_int (round_half_even (x / pow2 q)) * pow2 q"
    using r(1) by (simp add: p)
  moreover have "round_double x = of_int (round_half_even (x / pow2 q)) * pow2 q"
    using pos by (simp add: round_double_def q_def Let_def)
  ultimately show ?thesis by simp
qed

lemma fdiv_unit:
  "0 \<le> a \<Longrightarrow> a \<le> b \<Longrightarrow> 0 < b \<Longrightarrow> 0 \<le> fdiv a b \<and> fdiv a b \<le> 1"
  unfolding fdiv_def by (rule round_double_unit) (simp_all add: divide_le_eq)

lemma fmul_unit:
  "0 \<le> x \<Longrightarrow> x \<le> 1 \<Longrightarrow> 0 \<le> y \<Longrightarrow> y \<le> 1 \<Longrightarrow> 0 \<le> fmul x y \<and> fmul x y \<le> 1"
  unfolding fmul_def by (rule round_double_unit) (simp_all add: mult_le_one)

subsection \<open>Repair\<close>

lemma replace_first_append:
  "old \<notin> set xs \<Longrightarrow> replace_first old new (xs @ old # ys) = xs @ new # ys"
  by (induction xs) auto

lemma index_of_props:
  "x \<in> set a \<Longrightarrow>
   index_of x a < length a \<and> a ! index_of x a = x \<and> (\<forall>t<index_of x a. a ! t \<noteq> x)"
  by (induction a) (auto simp: less_Suc_eq_0_disj)

lemma argmax_props:
  assumes "a \<noteq> []"
  shows "\<exists>j. argmax a = Inr j \<and> j < length a \<and> a ! j = Max (set a) \<and>
             (\<forall>t<j. a ! t \<noteq> Max (set a))"
proof -
  have "Max (set a) \<in> set a" using assms by (intro Max_in) simp_all
  from index_of_props [OF this] this assms show ?thesis
    by (simp add: argmax_def Let_def)
qed

lemma py_slice_before:
  "k \<le> i \<Longrightarrow> i < length s \<Longrightarrow>
   py_slice s (int i - int k) (int i) = take k (drop (i - k) s)"
  by (simp add: py_slice_def Let_def nat_diff_distrib)

lemma py_slice_after:
  "i + k < length s \<Longrightarrow>
   py_slice s (int i + 1) (int i + int k + 1) = take k (drop (i + 1) s)"
  by (simp add: py_slice_def Let_def nat_add_distrib)

lemma py_slice_sub:
  "length W = 2 * k + 1 \<Longrightarrow> b \<le> k \<Longrightarrow>
   py_slice W (int b) (int b - int k - 1) = take k (drop b W)"
  by (simp add: py_slice_def Let_def)

lemma py_slice_next:
  "length W = 2 * k + 1 \<Longrightarrow> b \<le> k \<Longrightarrow>
   py_slice W (int k + int b) (int k + int b + 1) = [W ! (k + b)]"
  by (simp add: py_slice_def Let_def nat_add_distrib take_Suc_conv_app_nth)

lemma char_freq_slice_ok:
  "k_of m = length g \<Longrightarrow> \<exists>n. char_freq_slice m g x = Inr n"
  by (auto simp: char_freq_slice_def char_freq_def split: list.splits option.splits)

lemma char_freq_tcount:
  "k_of m = length g \<Longrightarrow> char_freq_slice m g [c] = Inr (tcount (st_of m) g c)"
  by (simp add: char_freq_slice_def char_freq_def tcount_def split: option.splits)

lemma kgram_freq_ttotal:
  "k_of m = length g \<Longrightarrow> kgram_freq m g = Inr (ttotal (st_of m) g)"
  by (simp add: kgram_freq_def ttotal_def inner_sum_def split: option.splits)

lemma ttotal_pos:
  "wf_table k st \<Longrightarrow> map_of st g = Some d \<Longrightarrow> 0 < ttotal st g"
  using wf_table_key [of k st g d] inner_sum_pos [of d] by (simp add: ttotal_def)

lemma member_le_sum_list_int:
  fixes xs :: "int list"
  shows "x \<in> set xs \<Longrightarrow> \<forall>y\<in>set xs. 0 \<le> y \<Longrightarrow> x \<le> sum_list xs"
proof (induction xs)
  case Nil
  then show ?case by simp
next
  case (Cons y ys)
  have "0 \<le> sum_list ys" using Cons.prems(2) by (intro sum_list_nonneg) simp
  with Cons show ?case by auto
qed

lemma count_le_total:
  assumes "wf_inner d" "map_of d c = Some n"
  shows "0 < n \<and> n \<le> inner_sum d"
proof -
  from map_of_SomeD [OF assms(2)] have i: "(c, n) \<in> set d" .
  then have "snd (c, n) \<in> snd ` set d" by (rule imageI)
  then have "n \<in> set (map snd d)" by simp
  moreover have "\<forall>y\<in>set (map snd d). 0 \<le> y"
    using wf_inner_entry [OF assms(1)] by fastforce
  ultimately have "n \<le> sum_list (map snd d)" by (rule member_le_sum_list_int)
  with wf_inner_entry [OF assms(1) i] show ?thesis by (simp add: inner_sum_def)
qed

lemma char_freq_slice_range:
  assumes "wf_table (k_of m) (st_of m)" "map_of (st_of m) g = Some d"
    "char_freq_slice m g x = Inr n"
  shows "0 \<le> n \<and> n \<le> ttotal (st_of m) g"
proof -
  from wf_table_key [OF assms(1,2)] have l: "k_of m = length g" and w: "wf_inner d"
    by simp_all
  have t: "ttotal (st_of m) g = inner_sum d" using assms(2) by (simp add: ttotal_def)
  from inner_sum_pos [OF w] have p: "0 < inner_sum d" .
  show ?thesis
  proof (cases "\<exists>c v. x = [c] \<and> map_of d c = Some v")
    case True
    then obtain c v where c: "x = [c]" "map_of d c = Some v" by blast
    with assms(2,3) l have "n = v" by (simp add: char_freq_slice_def char_freq_def)
    with count_le_total [OF w c(2)] t show ?thesis by simp
  next
    case False
    with assms(2,3) l have "n = 0"
      by (auto simp: char_freq_slice_def char_freq_def split: list.splits option.splits)
    with p t show ?thesis by simp
  qed
qed

lemma likelihood_loop_step:
  assumes "wf_table (k_of m) (st_of m)"
  shows "likelihood_loop m ntxt (b # bs) p =
     (let sub = py_slice ntxt (int b) (int b - int (k_of m) - 1)
      in if map_of (st_of m) sub = None then Inr 0
         else case char_freq_slice m sub
                     (py_slice ntxt (int (k_of m) + int b) (int (k_of m) + int b + 1)) of
                Inl e \<Rightarrow> Inl e
              | Inr cal1 \<Rightarrow>
                  likelihood_loop m ntxt bs (fmul p (fdiv cal1 (ttotal (st_of m) sub))))"
proof (cases "map_of (st_of m) (py_slice ntxt (int b) (int b - int (k_of m) - 1))")
  case None
  then show ?thesis by (simp add: Let_def)
next
  case (Some d)
  from wf_table_key [OF assms Some] have
    l: "k_of m = length (py_slice ntxt (int b) (int b - int (k_of m) - 1))"
    by simp
  from ttotal_pos [OF assms Some] have
    "ttotal (st_of m) (py_slice ntxt (int b) (int b - int (k_of m) - 1)) \<noteq> 0"
    by simp
  with Some kgram_freq_ttotal [OF l] show ?thesis
    by (simp add: Let_def split: sum.splits)
qed

lemma likelihood_loop_total:
  assumes "wf_table (k_of m) (st_of m)"
  shows "\<exists>q. likelihood_loop m ntxt bs p = Inr q"
proof (induction bs arbitrary: p)
  case Nil
  then show ?case by simp
next
  case (Cons b bs)
  let ?sub = "py_slice ntxt (int b) (int b - int (k_of m) - 1)"
  show ?case
  proof (cases "map_of (st_of m) ?sub")
    case None
    then show ?thesis
      by (simp add: likelihood_loop_step [OF assms] Let_def del: likelihood_loop.simps(2))
  next
    case (Some d)
    from wf_table_key [OF assms Some] have "k_of m = length ?sub" by simp
    from char_freq_slice_ok [OF this] obtain n where
      "char_freq_slice m ?sub
         (py_slice ntxt (int (k_of m) + int b) (int (k_of m) + int b + 1)) = Inr n"
      by blast
    with Some Cons.IH show ?thesis
      by (simp add: likelihood_loop_step [OF assms] Let_def del: likelihood_loop.simps(2))
  qed
qed

lemma likelihood_loop_unit:
  assumes "wf_table (k_of m) (st_of m)"
  shows "0 \<le> p \<Longrightarrow> p \<le> 1 \<Longrightarrow> likelihood_loop m ntxt bs p = Inr q \<Longrightarrow> 0 \<le> q \<and> q \<le> 1"
proof (induction bs arbitrary: p)
  case Nil
  then show ?case by simp
next
  case (Cons b bs)
  let ?sub = "py_slice ntxt (int b) (int b - int (k_of m) - 1)"
  let ?nx = "py_slice ntxt (int (k_of m) + int b) (int (k_of m) + int b + 1)"
  show ?case
  proof (cases "map_of (st_of m) ?sub")
    case None
    with Cons.prems(3) have "q = 0"
      by (simp add: likelihood_loop_step [OF assms] Let_def del: likelihood_loop.simps(2))
    then show ?thesis by simp
  next
    case (Some d)
    from wf_table_key [OF assms Some] have "k_of m = length ?sub" by simp
    from char_freq_slice_ok [OF this] obtain n where n: "char_freq_slice m ?sub ?nx = Inr n"
      by blast
    from char_freq_slice_range [OF assms Some n] ttotal_pos [OF assms Some]
    have "0 \<le> fdiv n (ttotal (st_of m) ?sub) \<and> fdiv n (ttotal (st_of m) ?sub) \<le> 1"
      by (intro fdiv_unit) simp_all
    with Cons.prems(1,2) have
      u: "0 \<le> fmul p (fdiv n (ttotal (st_of m) ?sub))"
         "fmul p (fdiv n (ttotal (st_of m) ?sub)) \<le> 1"
      using fmul_unit by blast+
    from Cons.prems(3) Some n have
      "likelihood_loop m ntxt bs (fmul p (fdiv n (ttotal (st_of m) ?sub))) = Inr q"
      by (simp add: likelihood_loop_step [OF assms] Let_def del: likelihood_loop.simps(2))
    from Cons.IH [OF u this] show ?thesis .
  qed
qed

lemma likelihood_loop_spec:
  assumes wf: "wf_table (k_of m) (st_of m)" and len: "length W = 2 * k_of m + 1"
  shows "\<forall>b\<in>set bs. b \<le> k_of m \<Longrightarrow>
     likelihood_loop m W bs p =
       Inr (if list_ex (\<lambda>b. map_of (st_of m) (take (k_of m) (drop b W)) = None) bs then 0
            else foldl fmul p
                   (map (\<lambda>b. fdiv (tcount (st_of m) (take (k_of m) (drop b W)) (W ! (k_of m + b)))
                                  (ttotal (st_of m) (take (k_of m) (drop b W)))) bs))"
proof (induction bs arbitrary: p)
  case Nil
  then show ?case by simp
next
  case (Cons b bs)
  then have b: "b \<le> k_of m" and bs: "\<forall>b\<in>set bs. b \<le> k_of m" by simp_all
  note s1 = py_slice_sub [OF len b]
  note s2 = py_slice_next [OF len b]
  show ?case
  proof (cases "map_of (st_of m) (take (k_of m) (drop b W))")
    case None
    then show ?thesis
      by (simp add: likelihood_loop_step [OF wf] s1 Let_def del: likelihood_loop.simps(2))
  next
    case (Some d)
    from wf_table_key [OF wf Some] have l: "k_of m = length (take (k_of m) (drop b W))"
      by simp
    from Some show ?thesis
      unfolding likelihood_loop_step [OF wf] s1 s2 Let_def char_freq_tcount [OF l]
      by (simp add: Cons.IH [OF bs])
  qed
qed

lemma prob_loop_total:
  assumes "wf_table (k_of m) (st_of m)"
  shows "\<exists>ps. prob_loop m ctx cs = Inr ps \<and> length ps = length cs \<and>
     (\<forall>t<length cs.
        likelihood_loop m (replace_first CHR ''~'' (cs ! t) ctx) [0..<k_of m + 1] 1 =
          Inr (ps ! t))"
proof (induction cs)
  case Nil
  then show ?case by simp
next
  case (Cons c cs)
  define bs where "bs = [0..<k_of m + 1]"
  from likelihood_loop_total [OF assms] obtain q where
    q: "likelihood_loop m (replace_first CHR ''~'' c ctx) bs 1 = Inr q" by blast
  from Cons.IH obtain ps where
    ps: "prob_loop m ctx cs = Inr ps" "length ps = length cs"
      "\<forall>t<length cs. likelihood_loop m (replace_first CHR ''~'' (cs ! t) ctx) bs 1 = Inr (ps ! t)"
    unfolding bs_def by blast
  have "prob_loop m ctx (c # cs) = Inr (q # ps)"
    unfolding prob_loop.simps bs_def [symmetric] by (simp add: q ps(1))
  moreover have "length (q # ps) = length (c # cs)" using ps(2) by simp
  moreover have "likelihood_loop m (replace_first CHR ''~'' ((c # cs) ! t) ctx) bs 1 =
      Inr ((q # ps) ! t)" if "t < length (c # cs)" for t
    using that q ps(3) by (cases t) simp_all
  ultimately show ?case unfolding bs_def by blast
qed

lemma replace_at_unfold:
  "replace_at m s i =
     (case map_of (st_of m) (py_slice s (int i - int (k_of m)) (int i)) of
        None \<Rightarrow> Inl KeyError
      | Some d \<Rightarrow>
          (case prob_loop m (context_of m s i) (map fst d) of
             Inl e \<Rightarrow> Inl e
           | Inr prob \<Rightarrow>
               (case argmax prob of
                  Inl e \<Rightarrow> Inl e
                | Inr j \<Rightarrow>
                    (case py_index (map fst d) j of
                       Inl e \<Rightarrow> Inl e
                     | Inr c \<Rightarrow> Inr (replace_first CHR ''~'' c s)))))"
  by (simp add: replace_at_def context_of_def Let_def split: option.splits)

lemma replace_at_argmax:
  assumes wf: "wf_table (k_of m) (st_of m)"
    and d: "map_of (st_of m) (py_slice s (int i - int (k_of m)) (int i)) = Some d"
  shows "\<exists>ps j. length ps = length d \<and>
           (\<forall>t<length d. candidate_likelihood m s i (fst (d ! t)) = Inr (ps ! t)) \<and>
           j < length d \<and> ps ! j = Max (set ps) \<and> (\<forall>t<j. ps ! t \<noteq> Max (set ps)) \<and>
           replace_at m s i = Inr (replace_first CHR ''~'' (fst (d ! j)) s)"
proof -
  from wf_table_key [OF wf d] have ne: "d \<noteq> []" by (simp add: wf_inner_def)
  from prob_loop_total [OF wf, of "context_of m s i" "map fst d"] obtain ps where
    ps: "prob_loop m (context_of m s i) (map fst d) = Inr ps" "length ps = length d" and
    lk: "\<forall>t<length d. candidate_likelihood m s i (fst (d ! t)) = Inr (ps ! t)"
    by (auto simp: candidate_likelihood_def)
  from ne ps(2) have "ps \<noteq> []" by auto
  from argmax_props [OF this] obtain j where
    j: "argmax ps = Inr j" "j < length ps" "ps ! j = Max (set ps)"
      "\<forall>t<j. ps ! t \<noteq> Max (set ps)" by blast
  from j(2) ps(2) have "py_index (map fst d) j = Inr (fst (d ! j))"
    by (simp add: py_index_def)
  with d ps(1) j(1) have "replace_at m s i = Inr (replace_first CHR ''~'' (fst (d ! j)) s)"
    by (simp add: replace_at_unfold)
  with ps(2) lk j show ?thesis by auto
qed

lemma replace_loop_marker:
  "i < length s \<Longrightarrow> s ! i = CHR ''~'' \<Longrightarrow> replace_at m s i = Inr s' \<Longrightarrow>
   replace_loop m (i # rest) s = replace_loop m rest s'"
  by (simp add: py_index_def)

lemma replace_loop_skip:
  "\<forall>j\<in>set js. j < length s \<and> s ! j \<noteq> CHR ''~'' \<Longrightarrow>
   replace_loop m (js @ rest) s = replace_loop m rest s"
  by (induction js) (simp_all add: py_index_def)

lemma replace_unknown_no_marker:
  assumes "CHR ''~'' \<notin> set t"
  shows "replace_unknown m t = Inr t"
proof -
  have "\<forall>j\<in>set [0..<length t]. j < length t \<and> t ! j \<noteq> CHR ''~''"
    using assms by (auto simp: in_set_conv_nth)
  from replace_loop_skip [OF this, of m "[]"] show ?thesis
    by (simp add: replace_unknown_def)
qed

lemma replace_unknown_first_marker:
  assumes "CHR ''~'' \<notin> set pre" "c \<noteq> CHR ''~''"
    and "replace_at m (pre @ CHR ''~'' # post) (length pre) = Inr (pre @ c # post)"
  shows "replace_unknown m (pre @ CHR ''~'' # post) = replace_unknown m (pre @ c # post)"
proof -
  let ?i = "length pre"
  let ?s = "pre @ CHR ''~'' # post"
  let ?s' = "pre @ c # post"
  define n where "n = length pre + Suc (length post)"
  have ls: "length ?s = n" "length ?s' = n" by (simp_all add: n_def)
  have "[0..<?i + Suc (length post)] = [0..<?i] @ [?i..<?i + Suc (length post)]"
    by (rule upt_add_eq_append) simp
  moreover have "[?i..<?i + Suc (length post)] = ?i # [Suc ?i..<?i + Suc (length post)]"
    by (rule upt_conv_Cons) simp
  ultimately have u: "[0..<n] = [0..<?i] @ ?i # [Suc ?i..<n]"
    by (simp only: n_def)
  have "[0..<Suc ?i] = [0..<?i] @ [?i]" by simp
  with u have u': "[0..<Suc ?i] @ [Suc ?i..<n] = [0..<n]" by (simp only: append_assoc append_Cons append_Nil)
  have a: "\<forall>j\<in>set [0..<?i]. j < length ?s \<and> ?s ! j \<noteq> CHR ''~''"
    using assms(1) by (auto simp: nth_append in_set_conv_nth)
  have b: "\<forall>j\<in>set [0..<Suc ?i]. j < length ?s' \<and> ?s' ! j \<noteq> CHR ''~''"
    using assms(1,2) by (auto simp: nth_append in_set_conv_nth less_Suc_eq)
  have "replace_unknown m ?s = replace_loop m [0..<n] ?s"
    by (simp only: replace_unknown_def ls)
  also have "\<dots> = replace_loop m ([0..<?i] @ ?i # [Suc ?i..<n]) ?s"
    by (simp only: u [symmetric])
  also have "\<dots> = replace_loop m (?i # [Suc ?i..<n]) ?s"
    by (rule replace_loop_skip [OF a])
  also have "\<dots> = replace_loop m [Suc ?i..<n] ?s'"
    by (rule replace_loop_marker [OF _ _ assms(3)]) simp_all
  finally have l: "replace_unknown m ?s = replace_loop m [Suc ?i..<n] ?s'" .
  have "replace_unknown m ?s' = replace_loop m [0..<n] ?s'"
    by (simp only: replace_unknown_def ls)
  also have "\<dots> = replace_loop m ([0..<Suc ?i] @ [Suc ?i..<n]) ?s'"
    by (simp only: u')
  also have "\<dots> = replace_loop m [Suc ?i..<n] ?s'"
    by (rule replace_loop_skip [OF b])
  finally show ?thesis using l by simp
qed

lemma succs_in_text:
  assumes "init text k = Inr m" "map_of (st_of m) g = Some d" "c \<in> fst ` set d"
  shows "c \<in> set text"
proof -
  define n where "n = text @ take k text"
  let ?st = "counted n k [0..<length n - k] []"
  have m: "st_of m = ?st"
    using assms(1) init_counted [of "text" k] by (auto simp: n_def)
  have "c \<in> succs ?st g"
    using assms(2,3) m by (simp add: succs_def)
  moreover have "succs [] g = {}" by (simp add: succs_def)
  ultimately have "c \<in> {n ! (k + j) | j. j \<in> set [0..<length n - k] \<and> take k (drop j n) = g}"
    unfolding succs_counted by blast
  then obtain j where j: "j \<in> set [0..<length n - k]" "c = n ! (k + j)" by blast
  from j(1) have "k + j < length n" by simp
  then have "n ! (k + j) \<in> set n" by (rule nth_mem)
  moreover have "set n \<subseteq> set text"
    using set_take_subset [of k "text"] by (auto simp: n_def)
  ultimately show ?thesis using j(2) by blast
qed

lemma candidate_likelihood_spec:
  assumes wf: "wf_table (k_of m) (st_of m)"
    and "k_of m \<le> length pre" "k_of m \<le> length post" "CHR ''~'' \<notin> set pre"
  shows "candidate_likelihood m (pre @ CHR ''~'' # post) (length pre) c =
           Inr (float_likelihood_spec m
                  (drop (length pre - k_of m) pre @ [c] @ take (k_of m) post))"
proof -
  let ?k = "k_of m"
  let ?s = "pre @ CHR ''~'' # post"
  let ?kb = "drop (length pre - ?k) pre"
  let ?ka = "take ?k post"
  have i: "length pre < length ?s" by simp
  have ik: "length pre + ?k < length ?s" using assms(3) by simp
  have "py_slice ?s (int (length pre) - int ?k) (int (length pre)) = ?kb"
    using assms(2) by (simp add: py_slice_before [OF assms(2) i])
  moreover have "py_slice ?s (int (length pre) + 1) (int (length pre) + int ?k + 1) = ?ka"
    by (simp add: py_slice_after [OF ik])
  ultimately have c: "context_of m ?s (length pre) = ?kb @ CHR ''~'' # ?ka"
    by (simp add: context_of_def Let_def)
  have "set ?kb \<subseteq> set pre" by (rule set_drop_subset)
  with assms(4) have "CHR ''~'' \<notin> set ?kb" by blast
  from replace_first_append [OF this] c have
    r: "replace_first CHR ''~'' c (context_of m ?s (length pre)) = ?kb @ [c] @ ?ka"
    by simp
  have len: "length (?kb @ [c] @ ?ka) = 2 * ?k + 1"
    using assms(2,3) by simp
  have "\<forall>b\<in>set [0..<?k + 1]. b \<le> ?k" by auto
  from likelihood_loop_spec [OF wf len this, of 1] show ?thesis
    unfolding candidate_likelihood_def r float_likelihood_spec_def Let_def by simp
qed

lemma replace_unknown_step:
  assumes "init text k = Inr m" "CHR ''~'' \<notin> set text" "CHR ''~'' \<notin> set pre"
    and "map_of (st_of m)
           (py_slice (pre @ CHR ''~'' # post) (int (length pre) - int k) (int (length pre))) =
         Some d"
  shows "\<exists>ps j. length ps = length d \<and>
           (\<forall>t<length d.
              candidate_likelihood m (pre @ CHR ''~'' # post) (length pre) (fst (d ! t)) =
                Inr (ps ! t)) \<and>
           j < length d \<and> ps ! j = Max (set ps) \<and> (\<forall>t<j. ps ! t \<noteq> Max (set ps)) \<and>
           replace_unknown m (pre @ CHR ''~'' # post) =
             replace_unknown m (pre @ fst (d ! j) # post) \<and>
           (CHR ''~'' \<notin> set post \<longrightarrow>
              replace_unknown m (pre @ CHR ''~'' # post) = Inr (pre @ fst (d ! j) # post))"
proof -
  let ?s = "pre @ CHR ''~'' # post"
  from wf_table_init [OF assms(1)] have k: "k_of m = k" and
    wf: "wf_table (k_of m) (st_of m)" by simp_all
  have d: "map_of (st_of m) (py_slice ?s (int (length pre) - int (k_of m)) (int (length pre))) =
      Some d"
    using assms(4) k by simp
  from replace_at_argmax [OF wf d] obtain ps j where
    l: "length ps = length d" and
    p: "\<forall>t<length d. candidate_likelihood m ?s (length pre) (fst (d ! t)) = Inr (ps ! t)" and
    j: "j < length d" "ps ! j = Max (set ps)" "\<forall>t<j. ps ! t \<noteq> Max (set ps)" and
    r: "replace_at m ?s (length pre) = Inr (replace_first CHR ''~'' (fst (d ! j)) ?s)"
    by blast
  from replace_first_append [OF assms(3)] r have
    r': "replace_at m ?s (length pre) = Inr (pre @ fst (d ! j) # post)" by simp
  from j(1) have "d ! j \<in> set d" by (rule nth_mem)
  then have "fst (d ! j) \<in> fst ` set d" by (rule imageI)
  from succs_in_text [OF assms(1) _ this] assms(4) assms(2) have
    c: "fst (d ! j) \<noteq> CHR ''~''" by auto
  from replace_unknown_first_marker [OF assms(3) c r'] have
    e: "replace_unknown m ?s = replace_unknown m (pre @ fst (d ! j) # post)" .
  have "replace_unknown m ?s = Inr (pre @ fst (d ! j) # post)" if "CHR ''~'' \<notin> set post"
  proof -
    from that assms(3) c have "CHR ''~'' \<notin> set (pre @ fst (d ! j) # post)" by auto
    from replace_unknown_no_marker [OF this] e show ?thesis by simp
  qed
  with l p j e show ?thesis by blast
qed

lemma init_alternating: "init ''aabab'' 1 = Inr alternating_model"
  unfolding alternating_model_def by code_simp

lemma init_tie: "init ''acabacbabac'' 1 = Inr tie_model"
  unfolding tie_model_def by code_simp

lemma init_marker: "init ''a~bc'' 1 = Inr marker_model"
  unfolding marker_model_def by code_simp

lemma repair_tie: "replace_unknown tie_model ''a~a'' = Inr ''aba''"
  unfolding tie_model_def by code_simp

lemma float_likelihood_tie:
  "float_likelihood_spec tie_model ''aca'' = 7205759403792793 / 18014398509481984"
  "float_likelihood_spec tie_model ''aba'' = 3602879701896397 / 9007199254740992"
  unfolding tie_model_def by code_simp+

lemma repair_alternating:
  "replace_unknown alternating_model ''a~c'' = Inr ''aac''"
  "replace_unknown alternating_model ''a~~a'' = Inr ''aaba''"
  "replace_unknown alternating_model ''aa~a'' = Inr ''aaba''"
  "replace_unknown alternating_model ''a~'' = Inr ''aa''"
  unfolding alternating_model_def by code_simp+

lemma likelihood_alternating_zero:
  "candidate_likelihood alternating_model ''a~c'' 1 CHR ''a'' = Inr 0"
  "candidate_likelihood alternating_model ''a~c'' 1 CHR ''b'' = Inr 0"
  unfolding alternating_model_def by code_simp+

lemma slice_alternating: "py_slice ''a~c'' (int 1 - int 1) (int 1) = ''a''"
  by code_simp

lemma kgram_b_slice:
  "k \<le> length pre \<Longrightarrow>
   py_slice (pre @ x # post) (int (length pre) - int k) (int (length pre)) =
     drop (length pre - k) pre"
  by (simp add: py_slice_before)

lemma joint_likelihood_tie:
  "joint_likelihood_spec tie_model ''aca'' = 2 / 5"
  "joint_likelihood_spec tie_model ''aba'' = 2 / 5"
  unfolding tie_model_def by code_simp+

lemma repair_marker:
  "replace_unknown marker_model ''a~b~a'' = Inr ''acb~a''"
  "replace_unknown marker_model ''a~b~b'' = Inr ''acb~b''"
  unfolding marker_model_def by code_simp+

lemma likelihood_marker:
  "candidate_likelihood marker_model ''a~b~b'' 3 CHR ''c'' = Inr 0"
  "joint_likelihood_spec marker_model ''bcb'' = 0"
  "py_slice ''a~b~b'' (int 3 - 1) (int 3) = ''b''"
  unfolding marker_model_def by code_simp+

lemma repair_example: "replace_unknown example_model ''aa~aab'' = Inr ''aabaab''"
  unfolding example_model_def by code_simp

section \<open>The claims\<close>

text \<open>
  C1. The claim: \<^verbatim>\<open>rand(g)\<close> returns each successor \<open>c\<close> of \<open>g\<close> with probability
  \<^verbatim>\<open>char_freq(g,c)/kgram_freq(g)\<close>. The code computes these weights and then returns
  \<^verbatim>\<open>random.choice(hold)\<close>: in the model of \<^verbatim>\<open>"aaab"\<close> with \<open>k = 1\<close>, where
  \<^verbatim>\<open>"a"\<close> is followed twice by \<^verbatim>\<open>a\<close> and once by \<^verbatim>\<open>b\<close>, it returns \<^verbatim>\<open>a\<close> with
  probability 1/2, not 2/3.
\<close>

theorem rand_uniform_not_weighted:
  "init ''aaab'' 1 = Inr skewed_model \<and>
   char_freq skewed_model ''a'' CHR ''a'' = Inr 2 \<and>
   kgram_freq skewed_model ''a'' = Inr 3 \<and>
   rand_prob skewed_model ''a'' CHR ''a'' = 1 / 2 \<and>
   rand_prob skewed_model ''a'' CHR ''b'' = 1 / 2"
proof -
  have "char_freq skewed_model ''a'' CHR ''a'' = Inr 2"
    unfolding skewed_model_def by code_simp
  moreover have "kgram_freq skewed_model ''a'' = Inr 3"
    unfolding skewed_model_def by code_simp
  moreover have "rand_prob skewed_model ''a'' CHR ''a'' = 1 / 2"
    unfolding rand_prob_def skewed_model_def by code_simp
  moreover have "rand_prob skewed_model ''a'' CHR ''b'' = 1 / 2"
    unfolding rand_prob_def skewed_model_def by code_simp
  ultimately show ?thesis
    using init_skewed by simp
qed

text \<open>
  C2. The claim: the marker is replaced by the candidate of maximal joint likelihood,
  the earliest one among equals. The code multiplies in floating point, and it
  rewrites the leftmost marker of the string. In the model of \<^verbatim>\<open>"acabacbabac"\<close>
  (order 1) the candidates \<^verbatim>\<open>c\<close> and \<^verbatim>\<open>b\<close> for \<^verbatim>\<open>"a~a"\<close> both have the joint
  likelihood 2/5 and \<^verbatim>\<open>c\<close> comes first, but \<^verbatim>\<open>0.6 * 0.666...\<close> is rounded below
  \<^verbatim>\<open>0.4 * 1.0\<close> and the code writes \<^verbatim>\<open>b\<close>. In the model of \<^verbatim>\<open>"a~bc"\<close>, where the marker
  is a symbol of the text, the repair of position 3 of \<^verbatim>\<open>"a~b~a"\<close> (between \<^verbatim>\<open>b\<close> and
  \<^verbatim>\<open>a\<close>, candidate \<^verbatim>\<open>c\<close>) is written to position 1.
\<close>

theorem rounding_breaks_tie:
  "init ''acabacbabac'' 1 = Inr tie_model \<and>
   map_of (st_of tie_model) ''a'' = Some [(CHR ''c'', 3), (CHR ''b'', 2)] \<and>
   joint_likelihood_spec tie_model ''aca'' = 2 / 5 \<and>
   joint_likelihood_spec tie_model ''aba'' = 2 / 5 \<and>
   replace_unknown tie_model ''a~a'' = Inr ''aba'' \<and>
   init ''a~bc'' 1 = Inr marker_model \<and>
   map_of (st_of marker_model) ''b'' = Some [(CHR ''c'', 1)] \<and>
   replace_unknown marker_model ''a~b~a'' = Inr ''acb~a''"
  using init_tie joint_likelihood_tie repair_tie init_marker repair_marker(1)
  by (simp add: tie_model_def marker_model_def)

text \<open>
  C2, amended. Let \<open>m\<close> be constructed from a text without the marker, and let the
  string be \<^verbatim>\<open>pre + '~' + post\<close> with no marker in \<open>pre\<close> (the marker shown is the first
  one), at least \<open>k\<close> symbols on either side, and \<^verbatim>\<open>kgram_b\<close>, the last \<open>k\<close> symbols of
  \<open>pre\<close>, a key with inner dictionary \<open>d\<close>. Then \<^verbatim>\<open>replace_unknown\<close> puts a candidate of
  \<open>d\<close> in place of the marker and goes on with the rest of the string (it returns the
  repaired string when no marker is left); the candidate is the first in the order of
  \<open>d\<close> among those whose likelihood, computed in doubles from left to right, is
  maximal. On the model of \<^verbatim>\<open>"aabaab"\<close>, \<^verbatim>\<open>replace_unknown("aa~aab")\<close> is
  \<^verbatim>\<open>"aabaab"\<close>.
\<close>

theorem replace_unknown_max_float_likelihood:
  assumes "init text k = Inr m" "CHR ''~'' \<notin> set text" "CHR ''~'' \<notin> set pre"
    and "k \<le> length pre" "k \<le> length post"
    and "map_of (st_of m) (drop (length pre - k) pre) = Some d"
  shows "(\<exists>j<length d.
            replace_unknown m (pre @ CHR ''~'' # post) =
              replace_unknown m (pre @ fst (d ! j) # post) \<and>
            (CHR ''~'' \<notin> set post \<longrightarrow>
               replace_unknown m (pre @ CHR ''~'' # post) = Inr (pre @ fst (d ! j) # post)) \<and>
            (\<forall>t<length d.
               float_likelihood_spec m (drop (length pre - k) pre @ [fst (d ! t)] @ take k post)
                 \<le> float_likelihood_spec m
                      (drop (length pre - k) pre @ [fst (d ! j)] @ take k post)) \<and>
            (\<forall>t<j.
               float_likelihood_spec m (drop (length pre - k) pre @ [fst (d ! t)] @ take k post)
                 < float_likelihood_spec m
                     (drop (length pre - k) pre @ [fst (d ! j)] @ take k post))) \<and>
         replace_unknown example_model ''aa~aab'' = Inr ''aabaab''"
proof -
  let ?s = "pre @ CHR ''~'' # post"
  let ?L = "\<lambda>c. float_likelihood_spec m (drop (length pre - k) pre @ [c] @ take k post)"
  from wf_table_init [OF assms(1)] have k: "k_of m = k" and
    wf: "wf_table (k_of m) (st_of m)" by simp_all
  have d: "map_of (st_of m) (py_slice ?s (int (length pre) - int k) (int (length pre))) = Some d"
    using assms(6) by (simp only: kgram_b_slice [OF assms(4)])
  have L: "candidate_likelihood m ?s (length pre) c = Inr (?L c)" for c
    using candidate_likelihood_spec [OF wf, of pre post c] assms(3,4,5) k by simp
  from replace_unknown_step [OF assms(1,2,3) d] obtain ps j where
    l: "length ps = length d" and
    p: "\<forall>t<length d. candidate_likelihood m ?s (length pre) (fst (d ! t)) = Inr (ps ! t)" and
    j: "j < length d" "ps ! j = Max (set ps)" "\<forall>t<j. ps ! t \<noteq> Max (set ps)" and
    e: "replace_unknown m ?s = replace_unknown m (pre @ fst (d ! j) # post)" and
    f: "CHR ''~'' \<notin> set post \<longrightarrow> replace_unknown m ?s = Inr (pre @ fst (d ! j) # post)"
    by blast
  from p L have v: "\<forall>t<length d. ps ! t = ?L (fst (d ! t))" by simp
  have le: "ps ! t \<le> ps ! j" if "t < length d" for t
    using that l j(2) by simp
  have lt: "ps ! t < ps ! j" if "t < j" for t
  proof -
    from that j(1) have "t < length d" by simp
    from le [OF this] j(3) that j(2) show ?thesis by (simp add: order_less_le)
  qed
  have "\<forall>t<length d. ?L (fst (d ! t)) \<le> ?L (fst (d ! j))"
    using le v j(1) by simp
  moreover have "\<forall>t<j. ?L (fst (d ! t)) < ?L (fst (d ! j))"
    using lt v j(1) by simp
  ultimately show ?thesis using e f j(1) repair_example by blast
qed

theorem replace_unknown_max_float_likelihood_witness:
  "init ''acabacbabac'' 1 = Inr tie_model \<and> CHR ''~'' \<notin> set ''acabacbabac'' \<and>
   CHR ''~'' \<notin> set ''a'' \<and> (1::nat) \<le> length ''a'' \<and>
   map_of (st_of tie_model) (drop (length ''a'' - 1) ''a'') =
     Some [(CHR ''c'', 3), (CHR ''b'', 2)] \<and>
   replace_unknown tie_model (''a'' @ CHR ''~'' # ''a'') = Inr (''a'' @ CHR ''b'' # ''a'') \<and>
   float_likelihood_spec tie_model ''aca'' < float_likelihood_spec tie_model ''aba''"
  using replace_unknown_max_float_likelihood [of "''acabacbabac''" 1 tie_model "''a''" "''a''"
      "[(CHR ''c'', 3), (CHR ''b'', 2)]"]
    init_tie repair_tie float_likelihood_tie
  by (simp add: tie_model_def)

text \<open>
  C3. For a text of length \<open>n \<ge> k\<close>, the frequencies \<^verbatim>\<open>kgram_freq(g)\<close> of the
  (distinct) keys \<open>g\<close> of the table add up to \<open>n\<close>.
\<close>

theorem circular_count:
  assumes "k \<le> length text"
  shows "\<exists>m fs. init text k = Inr m \<and> distinct (map fst (st_of m)) \<and>
           map (kgram_freq m) (map fst (st_of m)) = map Inr fs \<and>
           sum_list fs = int (length text)"
proof -
  let ?n = "text @ take k text"
  let ?st = "counted ?n k [0..<length ?n - k] []"
  let ?m = "\<lparr>k_of = k, st_of = ?st\<rparr>"
  let ?fs = "map (\<lambda>p. inner_sum (snd p)) ?st"
  have m: "init text k = Inr ?m" by (rule init_counted)
  have w: "wf_table (k_of ?m) (st_of ?m)"
    using wf_table_init [OF m] by simp
  have f: "map (kgram_freq ?m) (map fst (st_of ?m)) = map Inr ?fs"
    using kgram_freq_entry [OF w] by simp
  have s: "sum_list ?fs = int (length text)"
    using table_sum_counted [of ?n k "[0..<length ?n - k]" "[]"] assms
    by (simp add: table_sum_def)
  have d: "distinct (map fst (st_of ?m))"
    by (rule wf_table_distinct [OF w])
  from m d f s show ?thesis by blast
qed

theorem circular_count_witness:
  "2 \<le> length ''aabaab'' \<and> init ''aabaab'' 2 = Inr example_model \<and>
   map fst (st_of example_model) = [''aa'', ''ab'', ''ba''] \<and>
   map (kgram_freq example_model) [''aa'', ''ab'', ''ba''] = map Inr [2, 2, 2] \<and>
   sum_list [2, 2, 2] = int (length ''aabaab'')"
  using circular_count [of 2 "''aabaab''"] init_example
  by (simp add: example_model_def kgram_freq_def)

text \<open>
  C4. In a model constructed from a text of length at least \<open>k\<close>, for a seed \<open>g\<close> that
  is a key of the table and \<open>T \<ge> k\<close>, \<^verbatim>\<open>gen(g, T)\<close> returns a string of length \<open>T\<close>
  that starts with \<open>g\<close>; the symbol at position \<open>k + i\<close> is what \<^verbatim>\<open>rand\<close> returned
  on the last \<open>k\<close> symbols of the first \<open>k + i\<close>, with the draws of iteration \<open>i\<close>.
\<close>

theorem gen_length_prefix:
  assumes "k \<le> length text" "init text k = Inr m" "map_of (st_of m) g \<noteq> None" "k \<le> T"
  shows "\<exists>s. gen m g T rs = Inr s \<and> length s = T \<and> take k s = g \<and>
           (\<forall>i<T - k. rand m (drop i (take (k + i) s)) (rs i) = Inr (s ! (k + i)))"
proof -
  from gen_ok [OF assms(1-3), of T rs] obtain s' where
    g: "gen m g T rs = Inr (g @ s')" and l: "length g = k" "length s' = T - k" and
    r: "\<forall>t<T - k. rand m (take k (drop t (g @ s'))) (rs t) = Inr ((g @ s') ! (k + t))"
    by blast
  have "drop i (take (k + i) (g @ s')) = take k (drop i (g @ s'))" for i
    by (simp only: drop_take add_diff_cancel_right')
  with r have "\<forall>i<T - k. rand m (drop i (take (k + i) (g @ s'))) (rs i) =
      Inr ((g @ s') ! (k + i))" by simp
  moreover have "length (g @ s') = T" using l assms(4) by simp
  moreover have "take k (g @ s') = g" using l by simp
  ultimately show ?thesis using g by blast
qed

theorem gen_length_prefix_witness:
  "2 \<le> length ''aabaab'' \<and> init ''aabaab'' 2 = Inr example_model \<and>
   map_of (st_of example_model) ''aa'' \<noteq> None \<and> (2::nat) \<le> 6 \<and>
   gen example_model ''aa'' 6 (\<lambda>i. (0, 0)) = Inr ''aabaab'' \<and>
   length ''aabaab'' = 6 \<and> take 2 ''aabaab'' = ''aa''"
  using gen_length_prefix [of 2 "''aabaab''" example_model "''aa''" 6 "\<lambda>i. (0, 0)"]
    init_example gen_example
  by (simp add: example_model_def)

text \<open>
  C5. A query of the wrong length makes \<^verbatim>\<open>kgram_freq\<close> and \<^verbatim>\<open>char_freq\<close> raise the
  length error (they do not return 0); a query of length \<open>k\<close> returns the sum of the
  counts of \<^verbatim>\<open>table[g]\<close>, respectively \<^verbatim>\<open>table[g][c]\<close>, and 0 for what is unseen.
\<close>

theorem freq_length_check:
  "(length g \<noteq> k_of m \<longrightarrow>
      kgram_freq m g = Inl ValueError_length \<and> kgram_freq m g \<noteq> Inr 0 \<and>
      char_freq m g c = Inl ValueError_length) \<and>
   (length g = k_of m \<longrightarrow>
      kgram_freq m g =
        (case map_of (st_of m) g of Some d \<Rightarrow> Inr (sum_list (map snd d)) | None \<Rightarrow> Inr 0) \<and>
      char_freq m g c =
        (case map_of (st_of m) g of
           None \<Rightarrow> Inr 0
         | Some d \<Rightarrow> (case map_of d c of None \<Rightarrow> Inr 0 | Some n \<Rightarrow> Inr n)))"
  by (auto simp: kgram_freq_def char_freq_def)

theorem freq_length_check_witness:
  "length ''aab'' \<noteq> k_of example_model \<and>
   kgram_freq example_model ''aab'' = Inl ValueError_length \<and>
   char_freq example_model ''aab'' CHR ''a'' = Inl ValueError_length \<and>
   length ''aa'' = k_of example_model \<and>
   kgram_freq example_model ''aa'' = Inr 2 \<and>
   char_freq example_model ''aa'' CHR ''b'' = Inr 2 \<and>
   char_freq example_model ''aa'' CHR ''a'' = Inr 0 \<and>
   kgram_freq example_model ''bb'' = Inr 0"
  using freq_length_check [of "''aab''" example_model "CHR ''a''"]
    freq_length_check [of "''aa''" example_model "CHR ''b''"]
    freq_length_check [of "''aa''" example_model "CHR ''a''"]
    freq_length_check [of "''bb''" example_model "CHR ''a''"]
  by (simp add: example_model_def)

text \<open>
  C6. The claim: construction fails when \<open>len(text) < k\<close>. The constructor has no such
  check; for \<^verbatim>\<open>"ab"\<close> and \<open>k = 3\<close> it returns the table of the one window of
  \<^verbatim>\<open>"abab"\<close>.
\<close>

theorem init_short_text_counterexample:
  "length ''ab'' < (3::nat) \<and>
   init ''ab'' 3 = Inr \<lparr>k_of = 3, st_of = [(''aba'', [(CHR ''b'', 1)])]\<rparr>"
  by code_simp

text \<open>
  C6, amended. Construction never raises: for every text and every \<open>k\<close> it returns a
  model of order \<open>k\<close>.
\<close>

theorem init_never_fails: "\<exists>st. init text k = Inr \<lparr>k_of = k, st_of = st\<rparr>"
  using init_counted by blast

text \<open>
  C7. The model of \<^verbatim>\<open>"aabaab"\<close> with \<open>k = 2\<close> has the table
  \<^verbatim>\<open>{"aa":{"b":2}, "ab":{"a":2}, "ba":{"a":2}}\<close>, the three frequencies are 2, 2 and
  0, and \<^verbatim>\<open>gen("aa", 6)\<close> is \<^verbatim>\<open>"aabaab"\<close> whatever the random draws are.
\<close>

theorem worked_example:
  "init ''aabaab'' 2 =
     Inr \<lparr>k_of = 2,
          st_of = [(''aa'', [(CHR ''b'', 2)]), (''ab'', [(CHR ''a'', 2)]),
                   (''ba'', [(CHR ''a'', 2)])]\<rparr> \<and>
   kgram_freq example_model ''aa'' = Inr 2 \<and>
   char_freq example_model ''aa'' CHR ''b'' = Inr 2 \<and>
   char_freq example_model ''aa'' CHR ''a'' = Inr 0 \<and>
   gen example_model ''aa'' 6 rs = Inr ''aabaab''"
proof -
  have u: "[0..<6 - k_of example_model] = [0, 1, 2, 3]"
    by (simp add: example_model_def upt_rec)
  have k: "k_of example_model = 2"
    by (simp add: example_model_def)
  have "gen example_model ''aa'' 6 rs = Inr ''aabaab''"
    unfolding gen_def u by (simp add: k rand_example)
  moreover have "kgram_freq example_model ''aa'' = Inr 2"
    "char_freq example_model ''aa'' CHR ''b'' = Inr 2"
    "char_freq example_model ''aa'' CHR ''a'' = Inr 0"
    by (simp_all add: example_model_def kgram_freq_def char_freq_def)
  ultimately show ?thesis
    using init_example by (simp add: example_model_def)
qed

text \<open>
  C8. For a text of length at least \<open>k\<close>, every outer key of the constructed table
  has length \<open>k\<close> and every stored count is positive.
\<close>

theorem table_well_formed:
  assumes "k \<le> length text"
  shows "\<exists>m. init text k = Inr m \<and>
             (\<forall>(g, d)\<in>set (st_of m). length g = k \<and> (\<forall>(c, n)\<in>set d. 0 < n))"
proof -
  obtain m where m: "init text k = Inr m"
    using init_counted by blast
  have w: "wf_table k (st_of m)" by (rule wf_table_init [OF m])
  have "length g = k \<and> (\<forall>(c, n)\<in>set d. 0 < n)" if "(g, d) \<in> set (st_of m)" for g d
  proof -
    from wf_table_entry [OF w that] w have "length g = k" "wf_inner d"
      by (auto simp: wf_table_def)
    then show ?thesis using wf_inner_entry by blast
  qed
  with m show ?thesis by blast
qed

theorem table_well_formed_witness:
  "2 \<le> length ''aabaab'' \<and> init ''aabaab'' 2 = Inr example_model \<and>
   list_all (\<lambda>(g, d). length g = 2 \<and> list_all (\<lambda>(c, n). 0 < n) d) (st_of example_model)"
  using table_well_formed [of 2 "''aabaab''"] init_example
  by (simp add: example_model_def)

text \<open>
  C9. In a model constructed with \<open>0 < k \<le> len(text)\<close>, the table is closed under
  transition: if \<open>c\<close> is a successor of the key \<open>g\<close> then \<^verbatim>\<open>g[1:] + c\<close> is a key. So
  \<^verbatim>\<open>gen\<close> from a seed that is a key returns a string, never an error, and every
  k-gram it passes to \<^verbatim>\<open>rand\<close> is a key.
\<close>

theorem table_closed_gen_safe:
  assumes "0 < k" "k \<le> length text" "init text k = Inr m"
  shows "(\<forall>g d c. map_of (st_of m) g = Some d \<longrightarrow> map_of d c \<noteq> None \<longrightarrow>
            map_of (st_of m) (tl g @ [c]) \<noteq> None) \<and>
         (\<forall>g T rs. map_of (st_of m) g \<noteq> None \<longrightarrow>
            (\<exists>s. gen m g T rs = Inr s \<and>
                 (\<forall>i<T - k. map_of (st_of m) (take k (drop i s)) \<noteq> None)))"
proof (intro conjI allI impI)
  fix g d c
  assume d: "map_of (st_of m) g = Some d" and c: "map_of d c \<noteq> None"
  from wf_table_init [OF assms(3)] have "wf_table k (st_of m)" by simp
  from wf_table_key [OF this d] assms(1) have "g \<noteq> []" by auto
  then have e: "tl g @ [c] = drop 1 (g @ [c])" by (cases g) simp_all
  from c have "c \<in> fst ` set d" by (simp add: map_of_eq_None_iff)
  then have "drop 1 (g @ [c]) \<in> fst ` set (st_of m)"
    by (rule closed_init [OF assms(2,3) d])
  then have "tl g @ [c] \<in> fst ` set (st_of m)"
    by (simp only: e)
  then show "map_of (st_of m) (tl g @ [c]) \<noteq> None"
    by (simp add: map_of_eq_None_iff)
next
  fix g T rs
  assume "map_of (st_of m) g \<noteq> None"
  from gen_ok [OF assms(2,3) this, of T rs] obtain s' where
    g: "gen m g T rs = Inr (g @ s')" and
    r: "\<forall>t<T - k. take k (drop t (g @ s')) \<in> fst ` set (st_of m)"
    by blast
  from r have "\<forall>i<T - k. map_of (st_of m) (take k (drop i (g @ s'))) \<noteq> None"
    by (simp add: map_of_eq_None_iff)
  with g show "\<exists>s. gen m g T rs = Inr s \<and>
      (\<forall>i<T - k. map_of (st_of m) (take k (drop i s)) \<noteq> None)" by blast
qed

theorem table_closed_gen_safe_witness:
  "(0::nat) < 2 \<and> 2 \<le> length ''aabaab'' \<and> init ''aabaab'' 2 = Inr example_model \<and>
   map_of (st_of example_model) ''aa'' = Some [(CHR ''b'', 2)] \<and>
   map_of (st_of example_model) (tl ''aa'' @ [CHR ''b'']) \<noteq> None \<and>
   gen example_model ''aa'' 6 (\<lambda>i. (0, 0)) = Inr ''aabaab'' \<and>
   map_of (st_of example_model) (take 2 (drop 3 ''aabaab'')) \<noteq> None"
  using table_closed_gen_safe [of 2 "''aabaab''" example_model]
    init_example gen_example
  by (simp add: example_model_def)

text \<open>
  C10. The claim: at a marker whose \<^verbatim>\<open>kgram_b\<close> is a key, the marker is replaced, by the
  first candidate when every likelihood is 0. The code rewrites the leftmost marker of
  the string, which is another position when the marker is a symbol of the training
  text: in the model of \<^verbatim>\<open>"a~bc"\<close> position 1 of \<^verbatim>\<open>"a~b~b"\<close> is repaired by the marker
  itself; at position 3 \<^verbatim>\<open>kgram_b\<close> is \<^verbatim>\<open>b\<close>, its one candidate \<^verbatim>\<open>c\<close> has likelihood
  0, and \<^verbatim>\<open>c\<close> is written to position 1 while the marker at 3 stays.
\<close>

theorem marker_symbol_in_text:
  "init ''a~bc'' 1 = Inr marker_model \<and>
   ''a~b~b'' ! 3 = CHR ''~'' \<and>
   py_slice ''a~b~b'' (int 3 - 1) (int 3) = ''b'' \<and>
   map_of (st_of marker_model) ''b'' = Some [(CHR ''c'', 1)] \<and>
   candidate_likelihood marker_model ''a~b~b'' 3 CHR ''c'' = Inr 0 \<and>
   joint_likelihood_spec marker_model ''bcb'' = 0 \<and>
   replace_unknown marker_model ''a~b~b'' = Inr ''acb~b''"
  using init_marker likelihood_marker repair_marker(2)
  by (simp add: marker_model_def)

text \<open>
  C10, amended. Let \<open>m\<close> be constructed from a text without the marker, and let the
  string be \<^verbatim>\<open>pre + '~' + post\<close> with no marker in \<open>pre\<close>, and
  \<^verbatim>\<open>kgram_b = corrupted[i-k:i]\<close> a key with inner dictionary \<open>d\<close>. Then \<open>d\<close> is not empty
  and \<^verbatim>\<open>replace_unknown\<close> does not raise at this marker: it puts a candidate of \<open>d\<close> in
  its place and goes on with the rest of the string, and returns the repaired string
  when no marker is left. When the value computed for every candidate is 0, the
  candidate is the first key of \<open>d\<close>.
\<close>

theorem replace_unknown_never_fails:
  assumes "init text k = Inr m" "CHR ''~'' \<notin> set text" "CHR ''~'' \<notin> set pre"
    and "map_of (st_of m)
           (py_slice (pre @ CHR ''~'' # post) (int (length pre) - int k) (int (length pre))) =
         Some d"
  shows "d \<noteq> [] \<and>
         (\<exists>c. map_of d c \<noteq> None \<and>
              replace_unknown m (pre @ CHR ''~'' # post) = replace_unknown m (pre @ c # post) \<and>
              (CHR ''~'' \<notin> set post \<longrightarrow>
                 replace_unknown m (pre @ CHR ''~'' # post) = Inr (pre @ c # post)) \<and>
              ((\<forall>c'. map_of d c' \<noteq> None \<longrightarrow>
                    candidate_likelihood m (pre @ CHR ''~'' # post) (length pre) c' = Inr 0) \<longrightarrow>
                 c = fst (hd d)))"
proof -
  let ?s = "pre @ CHR ''~'' # post"
  from wf_table_init [OF assms(1)] have k: "k_of m = k" and
    wf: "wf_table (k_of m) (st_of m)" by simp_all
  from wf_table_key [OF wf] assms(4) k have ne: "d \<noteq> []" by (auto simp: wf_inner_def)
  from replace_unknown_step [OF assms] obtain ps j where
    l: "length ps = length d" and
    p: "\<forall>t<length d. candidate_likelihood m ?s (length pre) (fst (d ! t)) = Inr (ps ! t)" and
    j: "j < length d" "ps ! j = Max (set ps)" "\<forall>t<j. ps ! t \<noteq> Max (set ps)" and
    e: "replace_unknown m ?s = replace_unknown m (pre @ fst (d ! j) # post)" and
    f: "CHR ''~'' \<notin> set post \<longrightarrow> replace_unknown m ?s = Inr (pre @ fst (d ! j) # post)"
    by blast
  have key: "map_of d (fst (d ! t)) \<noteq> None" if "t < length d" for t
  proof -
    from that have "d ! t \<in> set d" by (rule nth_mem)
    then have "fst (d ! t) \<in> fst ` set d" by (rule imageI)
    then show ?thesis by (simp add: map_of_eq_None_iff)
  qed
  have z: "j = 0"
    if a: "\<forall>c'. map_of d c' \<noteq> None \<longrightarrow> candidate_likelihood m ?s (length pre) c' = Inr 0"
  proof -
    have q: "ps ! t = 0" if "t < length d" for t
      using a key [OF that] p that by auto
    then have "\<forall>x\<in>set ps. x = 0" using l by (auto simp: in_set_conv_nth)
    moreover have "ps \<noteq> []" using ne l by auto
    ultimately have "set ps = {0}" by (cases ps) auto
    then have "Max (set ps) = 0" by simp
    with j(3) q j(1) show ?thesis by (cases j) auto
  qed
  have h: "fst (d ! 0) = fst (hd d)" using ne by (simp add: hd_conv_nth)
  from ne key [OF j(1)] e f z h show ?thesis by auto
qed

theorem replace_unknown_never_fails_witness:
  "init ''aabab'' 1 = Inr alternating_model \<and> CHR ''~'' \<notin> set ''aabab'' \<and>
   CHR ''~'' \<notin> set ''a'' \<and>
   map_of (st_of alternating_model) (py_slice ''a~c'' (int 1 - int 1) (int 1)) =
     Some [(CHR ''a'', 1), (CHR ''b'', 2)] \<and>
   candidate_likelihood alternating_model ''a~c'' 1 CHR ''a'' = Inr 0 \<and>
   candidate_likelihood alternating_model ''a~c'' 1 CHR ''b'' = Inr 0 \<and>
   replace_unknown alternating_model ''a~c'' = Inr ''aac'' \<and>
   replace_unknown alternating_model ''a~'' = Inr ''aa'' \<and>
   replace_unknown alternating_model ''a~~a'' = replace_unknown alternating_model ''aa~a''"
  using replace_unknown_never_fails [of "''aabab''" 1 alternating_model "''a''" "''c''"
      "[(CHR ''a'', 1), (CHR ''b'', 2)]"]
    replace_unknown_never_fails [of "''aabab''" 1 alternating_model "''a''" "[]"
      "[(CHR ''a'', 1), (CHR ''b'', 2)]"]
    init_alternating repair_alternating likelihood_alternating_zero slice_alternating
  by (simp add: alternating_model_def)

end
